theory Spec2Isabelle
  imports Main "HOL-Library.Word" "HOL-Library.Multiset"
begin

section \<open>countprof: a sampling profiler for Lua (countprof.c)\<close>

subsection \<open>The windowed median of instructions per millisecond\<close>

text \<open>
  \<^verbatim>\<open>#define WINSIZE 19\<close>, and the three globals
  \<^verbatim>\<open>static int gIPMSWin[WINSIZE] = { 0 };\<close>,
  \<^verbatim>\<open>static int gIPMSRing[WINSIZE] = { 0 };\<close>,
  \<^verbatim>\<open>static int gIPMSRingIdx = 0;\<close>.
  The arrays are lists of \<open>WINSIZE\<close> elements. \<open>updateIPMSWin\<close> only copies and
  compares the elements, so a C \<open>int\<close> is represented by its value, an \<open>int\<close>.
  An array access outside the list is undefined behaviour in C: the model returns
  \<open>None\<close> there.
\<close>

definition WINSIZE :: nat where
  "WINSIZE = 19"

record window =
  gIPMSWin :: "int list"
  gIPMSRing :: "int list"
  gIPMSRingIdx :: nat

definition window_init :: window where
  "window_init = \<lparr> gIPMSWin = replicate WINSIZE 0, gIPMSRing = replicate WINSIZE 0,
     gIPMSRingIdx = 0 \<rparr>"

text \<open>\<^verbatim>\<open>while(gIPMSWin[i] != ipmsRem) i++;\<close> The loop has no bound of its own.\<close>

function find_rem :: "int list \<Rightarrow> int \<Rightarrow> nat \<Rightarrow> nat option" where
  "find_rem win ipmsRem i =
     (if i < length win
      then (if win ! i \<noteq> ipmsRem then find_rem win ipmsRem (i + 1) else Some i)
      else None)"
  by pat_completeness auto
termination
  by (relation "measure (\<lambda>(win, ipmsRem, i). length win - i)") auto

declare find_rem.simps [simp del]

text \<open>
  \<^verbatim>\<open>while(i > 0) { if(ipms < gIPMSWin[i - 1]) gIPMSWin[i] = gIPMSWin[i - 1]; else break; i--; }\<close>
  Returns the array and the index after the loop.
\<close>

function bubble_up :: "int list \<Rightarrow> int \<Rightarrow> nat \<Rightarrow> (int list \<times> nat) option" where
  "bubble_up win ipms i =
     (if i > 0
      then (if i - 1 < length win
            then (if ipms < win ! (i - 1)
                  then (if i < length win
                        then bubble_up (win[i := win ! (i - 1)]) ipms (i - 1)
                        else None)
                  else Some (win, i))
            else None)
      else Some (win, i))"
  by pat_completeness auto
termination
  by (relation "measure (\<lambda>(win, ipms, i). i)") auto

declare bubble_up.simps [simp del]

text \<open>
  \<^verbatim>\<open>while(i < WINSIZE - 1) { if(ipms > gIPMSWin[i + 1]) gIPMSWin[i] = gIPMSWin[i + 1]; else break; i++; }\<close>
\<close>

function bubble_down :: "int list \<Rightarrow> int \<Rightarrow> nat \<Rightarrow> (int list \<times> nat) option" where
  "bubble_down win ipms i =
     (if i < WINSIZE - 1
      then (if i + 1 < length win
            then (if ipms > win ! (i + 1)
                  then (if i < length win
                        then bubble_down (win[i := win ! (i + 1)]) ipms (i + 1)
                        else None)
                  else Some (win, i))
            else None)
      else Some (win, i))"
  by pat_completeness auto
termination
  by (relation "measure (\<lambda>(win, ipms, i). WINSIZE - 1 - i)") auto

declare bubble_down.simps [simp del]

text \<open>
  \<open>updateIPMSWin\<close>: advance the ring index, replace the ring entry, find the replaced
  value in the sorted window, move the hole to where the new value belongs, write it,
  and return the middle element together with the new state.
\<close>

definition updateIPMSWin :: "int \<Rightarrow> window \<Rightarrow> (int \<times> window) option" where
  "updateIPMSWin ipms w =
     (let idx = (if gIPMSRingIdx w + 1 \<ge> WINSIZE then 0 else gIPMSRingIdx w + 1) in
      if \<not> idx < length (gIPMSRing w) then None
      else
        let ipmsRem = gIPMSRing w ! idx;
            ring = (gIPMSRing w)[idx := ipms]
        in case find_rem (gIPMSWin w) ipmsRem 0 of
             None \<Rightarrow> None
           | Some i0 \<Rightarrow>
               (case (if ipms < ipmsRem then bubble_up (gIPMSWin w) ipms i0
                      else bubble_down (gIPMSWin w) ipms i0) of
                  None \<Rightarrow> None
                | Some (win, i) \<Rightarrow>
                    if \<not> i < length win then None
                    else
                      let win' = win[i := ipms] in
                      if \<not> WINSIZE div 2 < length win' then None
                      else Some (win' ! (WINSIZE div 2),
                                 \<lparr> gIPMSWin = win', gIPMSRing = ring, gIPMSRingIdx = idx \<rparr>)))"

text \<open>Feeding a sequence of values, one call each, keeping the last returned median.\<close>

fun observe_all :: "int list \<Rightarrow> int \<times> window \<Rightarrow> (int \<times> window) option" where
  "observe_all [] mw = Some mw"
| "observe_all (v # vs) mw =
     (case updateIPMSWin v (snd mw) of
        None \<Rightarrow> None
      | Some mw' \<Rightarrow> observe_all vs mw')"


subsection \<open>The call tree\<close>

text \<open>
  \<^verbatim>\<open>struct Line { struct Line *next; int line; uint64_t count; struct Source *callHead; };\<close>
  \<^verbatim>\<open>struct Source { struct Source *next; const char *source; struct Line *lineHead; };\<close>
  Every node is allocated by \<open>getLine\<close> or \<open>getSource\<close>, linked into exactly one list
  and never freed, so a \<open>next\<close>-linked list is a list of nodes in link order and a null
  head is the empty list. A \<open>const char *\<close> is its address: the code compares sources
  with \<open>==\<close> on the pointers and reads the characters only when it prints them.
\<close>

type_synonym cstring = nat

datatype Line = Line (line: int) (count': "64 word") (callHead: "Source list")
  and Source = Source (source: cstring) (lineHead: "Line list")

text \<open>
  The macro \<open>LLFIND(KEY)\<close>, for the field \<open>key\<close>. \<open>prev\<close> are the nodes already
  passed, from \<open>*head\<close> to the node whose \<open>next\<close> field \<open>prevNext\<close> addresses
  (\<open>prevNext = head\<close> when there is none), and the third argument is the list from
  \<open>cur\<close> on. On a match \<^verbatim>\<open>*prevNext = cur->next;\<close> leaves \<open>prev @ nxt\<close> at
  \<open>*head\<close>, and \<^verbatim>\<open>cur->next = *head; *head = cur;\<close> puts \<open>cur\<close> in front of it.
  The result is the returned node and the nodes that follow it in \<open>*head\<close>;
  \<open>None\<close> when the loop ends without returning.
\<close>

fun LLFIND :: "('n \<Rightarrow> 'k) \<Rightarrow> 'k \<Rightarrow> 'n list \<Rightarrow> 'n list \<Rightarrow> ('n \<times> 'n list) option" where
  "LLFIND key k prev [] = None"
| "LLFIND key k prev (cur # nxt) =
     (if key cur = k then Some (cur, prev @ nxt) else LLFIND key k (prev @ [cur]) nxt)"

text \<open>
  \<open>getLine\<close> and \<open>getSource\<close>: the node found, or a new node linked in front of
  \<open>*head\<close>. Both return the node and the rest of the list that now starts with it.
  \<open>malloc\<close> is taken to succeed here. The next subsection models the same functions on
  the linked nodes, with their pointer stores; that these list functions compute the same
  lists is part of what is proved about them.
\<close>

definition getLine :: "Line list \<Rightarrow> int \<Rightarrow> Line \<times> Line list" where
  "getLine head k =
     (case LLFIND line k [] head of
        Some found \<Rightarrow> found
      | None \<Rightarrow> (Line k 0 [], head))"

definition getSource :: "Source list \<Rightarrow> cstring \<Rightarrow> Source \<times> Source list" where
  "getSource head k =
     (case LLFIND source k [] head of
        Some found \<Rightarrow> found
      | None \<Rightarrow> (Source k [], head))"

subsection \<open>The sibling lists on a store\<close>

text \<open>
  The same macro on the linked nodes themselves. A node is its \<open>next\<close> field (\<open>link\<close>;
  \<open>None\<close> is the null pointer) and its other fields (\<open>content\<close>); the store maps the
  addresses of the allocated nodes to them. \<open>prevNext\<close> addresses either the variable
  \<open>*head\<close> of the caller or the \<open>next\<close> field of a node. The state of the macro is the
  store and the value of \<open>*head\<close>.
\<close>

type_synonym addr = nat

record 'c node =
  link :: "addr option"
  content :: 'c

type_synonym 'c store = "addr \<rightharpoonup> 'c node"

datatype ptr_loc = AtHead | AtNext addr

text \<open>\<^verbatim>\<open>*loc = v;\<close> Writing to the field of a node that is not allocated has no result.\<close>

definition store_ptr :: "ptr_loc \<Rightarrow> addr option \<Rightarrow> 'c store \<times> addr option \<Rightarrow> ('c store \<times> addr option) option" where
  "store_ptr loc v hh =
     (case loc of
        AtHead \<Rightarrow> Some (fst hh, v)
      | AtNext a \<Rightarrow>
          (case fst hh a of
             None \<Rightarrow> None
           | Some n \<Rightarrow> Some ((fst hh)(a \<mapsto> n\<lparr>link := v\<rparr>), snd hh)))"

text \<open>
  The loop of \<open>LLFIND\<close>. It ends with \<open>Some (Some (cur, h, head))\<close> when the macro
  returns \<open>cur\<close>, with \<open>Some None\<close> when \<open>cur\<close> becomes null, and has the value \<open>None\<close>
  when it reads a node that is not allocated or never ends (on a cyclic list).
  \<^verbatim>\<open>*prevNext = cur->next; cur->next = *head; *head = cur; return cur;\<close> are the three
  stores in this order, each reading the state the previous one left.
\<close>

partial_function (option) LLFIND_store ::
  "('c \<Rightarrow> 'k) \<Rightarrow> 'k \<Rightarrow> ptr_loc \<Rightarrow> addr option \<Rightarrow> 'c store \<times> addr option \<Rightarrow>
     (addr \<times> 'c store \<times> addr option) option option" where
  [code]: "LLFIND_store key k prevNext cur hh =
     (case cur of
        None \<Rightarrow> Some None
      | Some c \<Rightarrow>
          (case fst hh c of
             None \<Rightarrow> None
           | Some n \<Rightarrow>
               if key (content n) = k
               then (case store_ptr prevNext (link n) hh of
                       None \<Rightarrow> None
                     | Some (h1, head1) \<Rightarrow>
                         (case h1 c of
                            None \<Rightarrow> None
                          | Some n1 \<Rightarrow> Some (Some (c, h1(c \<mapsto> n1\<lparr>link := head1\<rparr>), Some c))))
               else LLFIND_store key k (AtNext c) (link n) hh))"

text \<open>
  The function around the macro, for the fields \<open>init\<close> of a new node: \<open>new\<close> is what
  \<open>malloc\<close> returns, null when it fails; the code does not check it.
  \<^verbatim>\<open>cur->next = *head; ... *head = cur; return cur;\<close>
\<close>

definition find_or_create_store ::
  "('c \<Rightarrow> 'k) \<Rightarrow> 'k \<Rightarrow> 'c \<Rightarrow> addr option \<Rightarrow> 'c store \<times> addr option \<Rightarrow> (addr \<times> 'c store \<times> addr option) option" where
  "find_or_create_store key k init new hh =
     (case LLFIND_store key k AtHead (snd hh) hh of
        None \<Rightarrow> None
      | Some (Some found) \<Rightarrow> Some found
      | Some None \<Rightarrow>
          (case new of
             None \<Rightarrow> None
           | Some a \<Rightarrow> Some (a, (fst hh)(a \<mapsto> \<lparr> link = snd hh, content = init \<rparr>), Some a)))"

text \<open>
  \<open>getLine\<close> and \<open>getSource\<close> on the store: the fields of \<open>struct Line\<close> and
  \<open>struct Source\<close> other than \<open>next\<close>, with the values the two functions give a new
  node.
\<close>

record line_fields =
  f_line :: int
  f_count :: "64 word"
  f_callHead :: "addr option"

record source_fields =
  f_source :: cstring
  f_lineHead :: "addr option"

definition getLine_store ::
  "int \<Rightarrow> addr option \<Rightarrow> line_fields store \<times> addr option \<Rightarrow>
     (addr \<times> line_fields store \<times> addr option) option" where
  "getLine_store k new hh =
     find_or_create_store f_line k \<lparr> f_line = k, f_count = 0, f_callHead = None \<rparr> new hh"

definition getSource_store ::
  "cstring \<Rightarrow> addr option \<Rightarrow> source_fields store \<times> addr option \<Rightarrow>
     (addr \<times> source_fields store \<times> addr option) option" where
  "getSource_store k new hh =
     find_or_create_store f_source k \<lparr> f_source = k, f_lineHead = None \<rparr> new hh"

subsection \<open>The host: Lua's call stack and hook\<close>

text \<open>
  Of \<open>lua_Debug\<close> the code reads \<open>event\<close>, \<open>source\<close> and \<open>linedefined\<close>
  (\<open>CURRENTLINE\<close> is 0). A \<open>lua_State\<close> is the list of its active functions' records,
  level 0 (the running function) first: \<open>lua_getstack(L, n, &ar1)\<close> succeeds when
  \<open>n < length L\<close> and then gives \<open>L ! n\<close>.
\<close>

datatype lua_event = LUA_HOOKCALL | LUA_HOOKRET | LUA_HOOKLINE | LUA_HOOKCOUNT | LUA_HOOKTAILCALL

datatype lua_mask = LUA_MASKCALL | LUA_MASKRET | LUA_MASKLINE | LUA_MASKCOUNT

record lua_Debug =
  ar_event :: lua_event
  ar_source :: cstring
  ar_linedefined :: int

type_synonym lua_State = "lua_Debug list"

text \<open>\<open>CALLCHECK\<close> is 0: \<^verbatim>\<open>#define HOOKMASK (LUA_MASKCOUNT)\<close>.\<close>

definition HOOKMASK :: "lua_mask set" where
  "HOOKMASK = {LUA_MASKCOUNT}"

text \<open>
  \<open>getARLine\<close> (\<open>STACK\<close> is 1). A pointer into the tree is the node it addresses
  together with the way a new value of that node is stored back into the forest:
  \<open>head = &line->callHead\<close> is the list \<open>callHead ln\<close> and the store through \<open>wb\<close>,
  \<open>head = &gSourceHead\<close> is the forest itself. The result is the \<open>struct Line *\<close>
  the function returns, in that form.
\<close>

function getARLine :: "lua_State \<Rightarrow> lua_Debug \<Rightarrow> nat \<Rightarrow> Source list \<Rightarrow> Line \<times> (Line \<Rightarrow> Source list)" where
  "getARLine L ar depth g =
     (let (head, put) =
            (if depth + 1 < length L
             then (let (ln, wb) = getARLine L (L ! (depth + 1)) (depth + 1) g
                   in (callHead ln, \<lambda>h. wb (Line (line ln) (count' ln) h)))
             else (g, \<lambda>h. h));
          lineNo = ar_linedefined ar;
          (src, srest) = getSource head (ar_source ar);
          (ln, lrest) = getLine (lineHead src) lineNo
      in (ln, \<lambda>l. put (Source (source src) (l # lrest) # srest)))"
  by pat_completeness auto
termination
  by (relation "measure (\<lambda>(L, ar, depth, g). length L - depth)") auto

declare getARLine.simps [simp del]

subsection \<open>The rate controller and the hook\<close>

text \<open>
  \<^verbatim>\<open>static int gLastCount = 1;\<close> \<^verbatim>\<open>static uint64_t gLastTime;\<close>
  The registration made by \<open>lua_sethook\<close> is kept as its mask and count; the files
  written by \<open>countprof_dump\<close> are kept by path.
\<close>

record profiler =
  gLastCount :: int
  gLastTime :: "64 word"
  ipmsWindow :: window
  gSourceHead :: "Source list"
  hookmask :: "lua_mask set"
  hookcount :: int
  files :: "string \<rightharpoonup> string"

definition profiler_init :: profiler where
  "profiler_init = \<lparr> gLastCount = 1, gLastTime = 0, ipmsWindow = window_init,
     gSourceHead = [], hookmask = {}, hookcount = 0, files = Map.empty \<rparr>"

text \<open>
  \<^verbatim>\<open>uint64_t elapsed = cur - gLastTime; if(elapsed < 1) elapsed = 1;\<close>
  The subtraction is that of \<open>uint64_t\<close>.
\<close>

definition elapsed_time :: "64 word \<Rightarrow> 64 word \<Rightarrow> 64 word" where
  "elapsed_time cur lastTime = (let elapsed = cur - lastTime in if elapsed < 1 then 1 else elapsed)"

text \<open>
  \<^verbatim>\<open>int ipms = (gLastCount * 1000) / elapsed;\<close>
  The product is an \<open>int\<close> (taken modulo \<open>2^32\<close>, as the usual targets compute it),
  converted to \<open>uint64_t\<close> for the unsigned division, whose quotient is converted
  back to \<open>int\<close>.
\<close>

definition ipms_of :: "int \<Rightarrow> 64 word \<Rightarrow> int" where
  "ipms_of lastCount elapsed =
     sint (ucast ((scast (word_of_int (lastCount * 1000) :: 32 word) :: 64 word) div elapsed) :: 32 word)"

text \<open>
  \<open>countHook\<close>. \<open>cur\<close> is the time the hook read before the call, \<open>t\<close> the time
  \<open>now()\<close> returns at the end.
\<close>

definition countHook :: "lua_State \<Rightarrow> lua_Debug \<Rightarrow> 64 word \<Rightarrow> 64 word \<Rightarrow> profiler \<Rightarrow> profiler option" where
  "countHook L ar cur t s =
     (let elapsed = elapsed_time cur (gLastTime s);
          ipms = ipms_of (gLastCount s) elapsed
      in case updateIPMSWin ipms (ipmsWindow s) of
           None \<Rightarrow> None
         | Some (med, w) \<Rightarrow>
             let medIpms = (if med < 1 then 1 else med);
                 (ln, wb) = getARLine L ar 0 (gSourceHead s)
             in Some (s\<lparr> ipmsWindow := w, gLastCount := medIpms,
                        hookmask := HOOKMASK, hookcount := medIpms,
                        gSourceHead := wb (Line (line ln) (count' ln + 1) (callHead ln)),
                        gLastTime := t \<rparr>))"

text \<open>\<open>hook\<close>: only the count event is handled (\<open>CALLCHECK\<close> is 0).\<close>

definition hook :: "lua_State \<Rightarrow> lua_Debug \<Rightarrow> 64 word \<Rightarrow> 64 word \<Rightarrow> profiler \<Rightarrow> profiler option" where
  "hook L ar cur t s =
     (case ar_event ar of
        LUA_HOOKCOUNT \<Rightarrow> countHook L ar cur t s
      | _ \<Rightarrow> Some s)"

definition countprof_start :: "64 word \<Rightarrow> profiler \<Rightarrow> profiler" where
  "countprof_start t s = s\<lparr> hookmask := HOOKMASK, hookcount := gLastCount s, gLastTime := t \<rparr>"

definition countprof_stop :: "profiler \<Rightarrow> profiler" where
  "countprof_stop s = s\<lparr> hookmask := {}, hookcount := - 1 \<rparr>"

subsection \<open>The report\<close>

text \<open>The decimal digits that \<open>%d\<close> and \<open>%llu\<close> print.\<close>

definition digit :: "nat \<Rightarrow> char" where
  "digit d = char_of (48 + d)"

fun dec :: "nat \<Rightarrow> string" where
  "dec n = (if n < 10 then [digit n] else dec (n div 10) @ [digit (n mod 10)])"

declare dec.simps [simp del]

definition show_int :: "int \<Rightarrow> string" where
  "show_int i = (if i < 0 then CHR ''-'' # dec (nat (- i)) else dec (nat i))"

definition newline :: char where
  "newline = CHR 0x0A"

text \<open>
  \<^verbatim>\<open>struct Stack { struct Stack *next; const char *source; struct Line *line; };\<close>
  \<open>strings\<close> gives the characters at a \<open>const char *\<close>.
\<close>

datatype Stack = Stack (stack_next: "Stack option") (stack_source: cstring) (stack_line: Line)

fun dumpStack :: "(cstring \<Rightarrow> string) \<Rightarrow> Stack \<Rightarrow> string" where
  "dumpStack strings (Stack nxt src ln) =
     (case nxt of Some link' \<Rightarrow> dumpStack strings link' @ '';'' | None \<Rightarrow> [])
     @ strings src @ '':'' @ show_int (line ln)"

text \<open>
  \<open>dumpSources\<close>: the outer loop over the sources, and \<open>dumpLines\<close>, its inner loop
  over the lines of one source. The result is what is written to the file.
\<close>

fun dumpSources :: "(cstring \<Rightarrow> string) \<Rightarrow> Source list \<Rightarrow> Stack option \<Rightarrow> string"
  and dumpLines :: "(cstring \<Rightarrow> string) \<Rightarrow> cstring \<Rightarrow> Line list \<Rightarrow> Stack option \<Rightarrow> string" where
  "dumpSources strings [] nxt = []"
| "dumpSources strings (Source src lns # ss) nxt =
     dumpLines strings src lns nxt @ dumpSources strings ss nxt"
| "dumpLines strings src [] nxt = []"
| "dumpLines strings src (Line n c ch # lns) nxt =
     (let link = Stack nxt src (Line n c ch)
      in (if ch \<noteq> [] then dumpSources strings ch (Some link) else [])
         @ dumpStack strings link @ '' '' @ dec (unat c) @ [newline])
     @ dumpLines strings src lns nxt"

text \<open>
  \<open>countprof_dump\<close> writes the file \<open><pid>.cp\<close>. \<open>fopen\<close> is not checked: when it
  fails the stream is null and the writes through it have no defined result.
\<close>

definition countprof_dump :: "(cstring \<Rightarrow> string) \<Rightarrow> int \<Rightarrow> bool \<Rightarrow> profiler \<Rightarrow> profiler option" where
  "countprof_dump strings pid fopen_ok s =
     (let path = show_int pid @ ''.cp''
      in if fopen_ok
         then Some (s\<lparr> files := (files s)(path \<mapsto> dumpSources strings (gSourceHead s) None) \<rparr>)
         else None)"

subsection \<open>Notions used in the statements about the sibling lists\<close>

text \<open>
  \<open>lseg h p as q\<close>: following \<open>next\<close> from the pointer \<open>p\<close> visits the allocated nodes
  at the addresses \<open>as\<close>, in this order, and arrives at \<open>q\<close>. \<open>llist h p as\<close>: the list
  at \<open>p\<close> is the null-terminated list of the nodes \<open>as\<close>. \<open>cont h a\<close> are the fields of
  the node at \<open>a\<close>.
\<close>

fun lseg :: "'c store \<Rightarrow> addr option \<Rightarrow> addr list \<Rightarrow> addr option \<Rightarrow> bool" where
  "lseg h p [] q = (p = q)"
| "lseg h p (a # as) q = (p = Some a \<and> (\<exists>n. h a = Some n \<and> lseg h (link n) as q))"

definition llist :: "'c store \<Rightarrow> addr option \<Rightarrow> addr list \<Rightarrow> bool" where
  "llist h p as = lseg h p as None"

definition cont :: "'c store \<Rightarrow> addr \<Rightarrow> 'c" where
  "cont h a = content (the (h a))"

text \<open>Two small stores for examples.\<close>

definition example_lines :: "line_fields store" where
  "example_lines =
     [10 \<mapsto> \<lparr> link = Some 11, content = \<lparr> f_line = 1, f_count = 5, f_callHead = None \<rparr> \<rparr>,
      11 \<mapsto> \<lparr> link = None, content = \<lparr> f_line = 2, f_count = 7, f_callHead = Some 20 \<rparr> \<rparr>]"

definition example_sources :: "source_fields store" where
  "example_sources =
     [30 \<mapsto> \<lparr> link = None, content = \<lparr> f_source = 8, f_lineHead = Some 10 \<rparr> \<rparr>]"

subsection \<open>The states of the profiler\<close>

text \<open>
  The states reached from the initial one by the three entry points and the hook.
\<close>

inductive reachable :: "profiler \<Rightarrow> bool" where
  reach_init: "reachable profiler_init"
| reach_start: "reachable s \<Longrightarrow> reachable (countprof_start t s)"
| reach_stop: "reachable s \<Longrightarrow> reachable (countprof_stop s)"
| reach_dump: "reachable s \<Longrightarrow> countprof_dump strings pid fopen_ok s = Some s' \<Longrightarrow> reachable s'"
| reach_hook: "reachable s \<Longrightarrow> hook L ar cur t s = Some s' \<Longrightarrow> reachable s'"

subsection \<open>Notions used in the statements about the window\<close>

text \<open>
  The window is well formed when both arrays have \<open>WINSIZE\<close> elements and the sorted
  view is an ascending arrangement of the ring's values.
\<close>

definition window_ok :: "window \<Rightarrow> bool" where
  "window_ok w \<longleftrightarrow>
     length (gIPMSWin w) = WINSIZE \<and> length (gIPMSRing w) = WINSIZE \<and>
     sorted (gIPMSWin w) \<and> mset (gIPMSWin w) = mset (gIPMSRing w)"

text \<open>The ring index after \<^verbatim>\<open>if(++gIPMSRingIdx >= WINSIZE) gIPMSRingIdx = 0;\<close>\<close>

definition next_idx :: "window \<Rightarrow> nat" where
  "next_idx w = (if gIPMSRingIdx w + 1 \<ge> WINSIZE then 0 else gIPMSRingIdx w + 1)"

text \<open>
  The \<open>WINSIZE\<close> most recent values after the values \<open>vs\<close> have been fed to a
  window that started as \<open>WINSIZE\<close> zeros.
\<close>

definition recent :: "int list \<Rightarrow> int list" where
  "recent vs = drop (length vs) (replicate WINSIZE 0 @ vs)"


subsection \<open>Notions used in the statements about the call tree\<close>

text \<open>
  A frame key is the source and the line of a frame; the path that \<open>getARLine\<close>
  follows for a stack is the keys of its frames from the outermost frame (the root) to the
  frame \<open>ar\<close> of the hook (the leaf). Level 0 of \<open>L\<close> is never looked up: its
  record is \<open>ar\<close>.
\<close>

type_synonym FrameKey = "cstring \<times> int"

definition frame_key :: "lua_Debug \<Rightarrow> FrameKey" where
  "frame_key ar = (ar_source ar, ar_linedefined ar)"

definition stack_path :: "lua_State \<Rightarrow> lua_Debug \<Rightarrow> FrameKey list" where
  "stack_path L ar = rev (map frame_key (ar # drop 1 L))"

text \<open>
  The node with a given key path: at each level the first source with the key's source,
  and in it the first line with the key's line.
\<close>

fun find_node :: "FrameKey list \<Rightarrow> Source list \<Rightarrow> Line option" where
  "find_node [] g = None"
| "find_node ((c, n) # ks) g =
     (case find (\<lambda>s. source s = c) g of
        None \<Rightarrow> None
      | Some s \<Rightarrow>
          (case find (\<lambda>l. line l = n) (lineHead s) of
             None \<Rightarrow> None
           | Some l \<Rightarrow> if ks = [] then Some l else find_node ks (callHead l)))"

definition count_at :: "FrameKey list \<Rightarrow> Source list \<Rightarrow> 64 word" where
  "count_at ks g = (case find_node ks g of None \<Rightarrow> 0 | Some l \<Rightarrow> count' l)"

text \<open>
  The sibling list in which the key after the path \<open>ks\<close> is looked up: the forest itself
  for the empty path, else the \<open>callHead\<close> of the node at \<open>ks\<close>. \<open>matches k ns\<close> are
  all the line nodes of the sibling list \<open>ns\<close> that have the key \<open>k\<close>.
\<close>

definition namespace :: "FrameKey list \<Rightarrow> Source list \<Rightarrow> Source list" where
  "namespace ks g =
     (if ks = [] then g else (case find_node ks g of None \<Rightarrow> [] | Some l \<Rightarrow> callHead l))"

definition matches :: "FrameKey \<Rightarrow> Source list \<Rightarrow> Line list" where
  "matches k ns =
     concat (map (\<lambda>s. filter (\<lambda>l. line l = snd k) (lineHead s))
                 (filter (\<lambda>s. source s = fst k) ns))"

text \<open>
  No two sources of a sibling list have the same source, no two lines of a source the
  same line, at every depth.
\<close>

fun uniq_sources :: "Source list \<Rightarrow> bool"
  and uniq_lines :: "Line list \<Rightarrow> bool" where
  "uniq_sources [] = True"
| "uniq_sources (Source c lns # ss) = (c \<notin> source ` set ss \<and> uniq_lines lns \<and> uniq_sources ss)"
| "uniq_lines [] = True"
| "uniq_lines (Line n cnt ch # lns) = (n \<notin> line ` set lns \<and> uniq_sources ch \<and> uniq_lines lns)"

text \<open>
  One level of \<open>getARLine\<close>: the two lookups for a key in the sibling list \<open>g\<close>, giving
  the line node and the store of a new value of it into \<open>g\<close>.
\<close>

definition step :: "FrameKey \<Rightarrow> Source list \<Rightarrow> Line \<times> (Line \<Rightarrow> Source list)" where
  "step k g =
     (let (src, srest) = getSource g (fst k);
          (ln, lrest) = getLine (lineHead src) (snd k)
      in (ln, \<lambda>l. Source (source src) (l # lrest) # srest))"

text \<open>
  The recording of a path as the specification words it: find or create the node of each
  key from the root down, one level per key, and apply \<open>f\<close> to the last node only.
\<close>

fun visit_path :: "FrameKey list \<Rightarrow> (Line \<Rightarrow> Line) \<Rightarrow> Source list \<Rightarrow> Source list" where
  "visit_path [] f g = g"
| "visit_path [k] f g = (let (ln, wb) = step k g in wb (f ln))"
| "visit_path (k # ks) f g =
     (let (ln, wb) = step k g
      in wb (Line (line ln) (count' ln) (visit_path ks f (callHead ln))))"

definition incr :: "Line \<Rightarrow> Line" where
  "incr ln = Line (line ln) (count' ln + 1) (callHead ln)"

definition recordSample :: "FrameKey list \<Rightarrow> Source list \<Rightarrow> Source list" where
  "recordSample ks g = visit_path ks incr g"

text \<open>\<open>countHook\<close> called once for each pair of clock readings, with the same stack.\<close>

fun countHooks :: "lua_State \<Rightarrow> lua_Debug \<Rightarrow> (64 word \<times> 64 word) list \<Rightarrow> profiler \<Rightarrow> profiler option" where
  "countHooks L ar [] s = Some s"
| "countHooks L ar ((cur, t) # ts) s =
     (case countHook L ar cur t s of
        None \<Rightarrow> None
      | Some s' \<Rightarrow> countHooks L ar ts s')"

subsection \<open>Notions used in the statements about the report\<close>

text \<open>
  A node of the forest is identified by its position: for each level from the root, the
  index of its source in the sibling list and the index of its line in that source.
  \<open>node_at p g\<close> is the node at position \<open>p\<close> with the keys on the way to it, root first;
  \<open>None\<close> when there is no such node.
\<close>

type_synonym pos = "(nat \<times> nat) list"

fun node_at :: "pos \<Rightarrow> Source list \<Rightarrow> (FrameKey list \<times> Line) option" where
  "node_at [] g = None"
| "node_at ((i, j) # p) g =
     (if i < length g \<and> j < length (lineHead (g ! i))
      then (let s = g ! i; l = lineHead s ! j
            in if p = [] then Some ([(source s, line l)], l)
               else map_option (\<lambda>(ks, n). ((source s, line l) # ks, n)) (node_at p (callHead l)))
      else None)"

text \<open>
  The folded-stack line of a node: its keys as \<open>source:line\<close> joined by \<open>;\<close>, a space,
  the count in decimal, and a newline.
\<close>

definition token :: "(cstring \<Rightarrow> string) \<Rightarrow> FrameKey \<Rightarrow> string" where
  "token strings k = strings (fst k) @ '':'' @ show_int (snd k)"

fun folded :: "(cstring \<Rightarrow> string) \<Rightarrow> FrameKey list \<Rightarrow> string" where
  "folded strings [] = []"
| "folded strings [k] = token strings k"
| "folded strings (k # ks) = token strings k @ '';'' @ folded strings ks"

definition report_line :: "(cstring \<Rightarrow> string) \<Rightarrow> FrameKey list \<times> Line \<Rightarrow> string" where
  "report_line strings kl =
     folded strings (fst kl) @ '' '' @ dec (unat (count' (snd kl))) @ [newline]"

text \<open>
  The nodes of a forest with their positions, listed source by source and line by line,
  the nodes below a line before the line itself. \<open>i\<close> and \<open>j\<close> are the indices of the
  first source and line of the lists given.
\<close>

fun nodes_s :: "nat \<Rightarrow> Source list \<Rightarrow> (pos \<times> FrameKey list \<times> Line) list"
  and nodes_l :: "nat \<Rightarrow> cstring \<Rightarrow> nat \<Rightarrow> Line list \<Rightarrow> (pos \<times> FrameKey list \<times> Line) list" where
  "nodes_s i [] = []"
| "nodes_s i (Source c lns # ss) = nodes_l i c 0 lns @ nodes_s (Suc i) ss"
| "nodes_l i c j [] = []"
| "nodes_l i c j (Line n cnt ch # lns) =
     map (\<lambda>(p, ks, l). ((i, j) # p, (c, n) # ks, l)) (nodes_s 0 ch)
     @ [([(i, j)], [(c, n)], Line n cnt ch)]
     @ nodes_l i c (Suc j) lns"

text \<open>What \<open>dumpStack\<close> writes for the links above the current one.\<close>

definition stack_prefix :: "(cstring \<Rightarrow> string) \<Rightarrow> Stack option \<Rightarrow> string" where
  "stack_prefix strings nxt = (case nxt of None \<Rightarrow> [] | Some st \<Rightarrow> dumpStack strings st @ '';'')"

subsection \<open>The end-to-end scenario\<close>

text \<open>
  Two frames of the chunk \<open>mod.lua\<close>: the function defined at line 10 (the root) has
  called the function defined at line 20, which is running when the hook is called. Both
  have the same \<open>source\<close> pointer. \<open>scenario_run\<close> starts the profiler at time 0,
  calls \<open>countHook\<close> five times, 100 microseconds after the previous time reading each,
  and dumps as process 4242; \<open>scenario_file\<close> is the file written.
\<close>

definition mod_lua :: cstring where
  "mod_lua = 1"

definition scenario_ar :: lua_Debug where
  "scenario_ar = \<lparr> ar_event = LUA_HOOKCOUNT, ar_source = mod_lua, ar_linedefined = 20 \<rparr>"

definition scenario_stack :: lua_State where
  "scenario_stack = [scenario_ar, \<lparr> ar_event = LUA_HOOKCOUNT, ar_source = mod_lua, ar_linedefined = 10 \<rparr>]"

definition scenario_strings :: "cstring \<Rightarrow> string" where
  "scenario_strings a = (if a = mod_lua then ''mod.lua'' else [])"

definition scenario_run :: "profiler option" where
  "scenario_run =
     (case countHooks scenario_stack scenario_ar
             [(100, 100), (200, 200), (300, 300), (400, 400), (500, 500)]
             (countprof_start 0 profiler_init) of
        None \<Rightarrow> None
      | Some s \<Rightarrow> countprof_dump scenario_strings 4242 True s)"

definition scenario_file :: "string option" where
  "scenario_file = (case scenario_run of None \<Rightarrow> None | Some s \<Rightarrow> files s ''4242.cp'')"

section \<open>Properties\<close>

subsection \<open>The scan and the two shifts of \<open>updateIPMSWin\<close>\<close>

lemma find_rem_finds:
  "ipmsRem \<in> set (drop i win) \<Longrightarrow>
   \<exists>j. find_rem win ipmsRem i = Some j \<and> i \<le> j \<and> j < length win \<and> win ! j = ipmsRem"
proof (induction win ipmsRem i rule: find_rem.induct)
  case (1 win ipmsRem i)
  from "1.prems" have len: "i < length win"
    by (cases "i < length win") auto
  show ?case
  proof (cases "win ! i = ipmsRem")
    case True
    with len show ?thesis by (simp add: find_rem.simps [of win ipmsRem i])
  next
    case False
    from len have "drop i win = win ! i # drop (Suc i) win"
      by (simp add: Cons_nth_drop_Suc)
    with "1.prems" False have "ipmsRem \<in> set (drop (i + 1) win)" by auto
    with "1.IH" len False obtain j where
      "find_rem win ipmsRem (i + 1) = Some j" "i + 1 \<le> j" "j < length win" "win ! j = ipmsRem"
      by blast
    with len False show ?thesis by (auto simp: find_rem.simps [of win ipmsRem i])
  qed
qed

lemma bubble_up_spec:
  "\<exists>w' i'. bubble_up (xs @ h # ys) v (length xs) = Some (w', i') \<and> i' < length w' \<and>
     w'[i' := v] = rev (dropWhile ((<) v) (rev xs)) @ v # rev (takeWhile ((<) v) (rev xs)) @ ys"
proof (induction xs arbitrary: h ys rule: rev_induct)
  case Nil
  show ?case by (simp add: bubble_up.simps [of _ _ 0])
next
  case (snoc x xs)
  show ?case
  proof (cases "v < x")
    case True
    have upd: "((xs @ [x]) @ h # ys)[length (xs @ [x]) := x] = xs @ x # (x # ys)"
      by (simp add: list_update_append)
    have rd: "((xs @ [x]) @ h # ys) ! (length (xs @ [x]) - 1) = x"
      by (simp add: nth_append)
    from snoc.IH [of x "x # ys"] obtain w' i' where
      r: "bubble_up (xs @ x # x # ys) v (length xs) = Some (w', i')" "i' < length w'"
         "w'[i' := v] = rev (dropWhile ((<) v) (rev xs)) @ v # rev (takeWhile ((<) v) (rev xs)) @ x # ys"
      by blast
    have "bubble_up ((xs @ [x]) @ h # ys) v (length (xs @ [x])) =
          bubble_up (xs @ x # x # ys) v (length xs)"
      using True rd upd by (subst bubble_up.simps) simp
    with r True show ?thesis by simp
  next
    case False
    have rd: "((xs @ [x]) @ h # ys) ! (length (xs @ [x]) - 1) = x"
      by (simp add: nth_append)
    have "bubble_up ((xs @ [x]) @ h # ys) v (length (xs @ [x])) = Some ((xs @ [x]) @ h # ys, length (xs @ [x]))"
      using False rd by (subst bubble_up.simps) simp
    with False show ?thesis by (simp add: list_update_append)
  qed
qed

lemma bubble_down_spec:
  "length (xs @ h # ys) = WINSIZE \<Longrightarrow>
   \<exists>w' i'. bubble_down (xs @ h # ys) v (length xs) = Some (w', i') \<and> i' < length w' \<and>
     w'[i' := v] = xs @ takeWhile (\<lambda>y. v > y) ys @ v # dropWhile (\<lambda>y. v > y) ys"
proof (induction ys arbitrary: h xs)
  case Nil
  then have "\<not> length xs < WINSIZE - 1" by simp
  then have "bubble_down (xs @ [h]) v (length xs) = Some (xs @ [h], length xs)"
    by (subst bubble_down.simps) simp
  then show ?case by simp
next
  case (Cons y ys)
  from Cons.prems have lt: "length xs < WINSIZE - 1" by simp
  have rd: "(xs @ h # y # ys) ! (length xs + 1) = y"
    by (simp add: nth_append)
  show ?case
  proof (cases "v > y")
    case True
    have upd: "(xs @ h # y # ys)[length xs := y] = (xs @ [y]) @ y # ys"
      by (simp add: list_update_append)
    from Cons.prems have "length ((xs @ [y]) @ y # ys) = WINSIZE" by simp
    from Cons.IH [OF this] obtain w' i' where
      r: "bubble_down ((xs @ [y]) @ y # ys) v (length (xs @ [y])) = Some (w', i')" "i' < length w'"
         "w'[i' := v] = (xs @ [y]) @ takeWhile (\<lambda>y. v > y) ys @ v # dropWhile (\<lambda>y. v > y) ys"
      by blast
    have "bubble_down (xs @ h # y # ys) v (length xs) =
          bubble_down ((xs @ [y]) @ y # ys) v (length (xs @ [y]))"
      using True rd upd lt by (subst bubble_down.simps) simp
    with r True show ?thesis by simp
  next
    case False
    have "bubble_down (xs @ h # y # ys) v (length xs) = Some (xs @ h # y # ys, length xs)"
      using False rd lt by (subst bubble_down.simps) simp
    with False show ?thesis by (simp add: list_update_append)
  qed
qed

lemma dropWhile_rev_sorted_le:
  "sorted (rev zs) \<Longrightarrow> x \<in> set (dropWhile ((<) v) zs) \<Longrightarrow> x \<le> (v::int)"
  by (induction zs) (auto simp: sorted_append split: if_splits)

lemma dropWhile_sorted_ge:
  "sorted ys \<Longrightarrow> y \<in> set (dropWhile (\<lambda>y. v > y) ys) \<Longrightarrow> (v::int) \<le> y"
  by (induction ys) (auto split: if_splits)

lemma sorted_up:
  assumes "sorted (xs @ h # ys)" "v < (h::int)"
  shows "sorted (rev (dropWhile ((<) v) (rev xs)) @ v # rev (takeWhile ((<) v) (rev xs)) @ ys)"
proof -
  let ?as = "rev (dropWhile ((<) v) (rev xs))" and ?bs = "rev (takeWhile ((<) v) (rev xs))"
  have split: "xs = ?as @ ?bs"
    by (metis rev_append rev_rev_ident takeWhile_dropWhile_id)
  from assms have sx: "sorted xs" and sy: "sorted ys" and xy: "\<forall>x\<in>set xs. \<forall>y\<in>set ys. x \<le> y"
    and hy: "\<forall>y\<in>set ys. h \<le> y"
    by (auto simp: sorted_append)
  have a_le: "\<forall>a\<in>set ?as. a \<le> v"
    using dropWhile_rev_sorted_le [of "rev xs" _ v] sx by simp
  have b_gt: "\<forall>b\<in>set ?bs. v < b"
    using set_takeWhileD [of _ "(<) v" "rev xs"] by auto
  from sx split have sa: "sorted ?as" and sb: "sorted ?bs"
    by (metis sorted_append)+
  have sub: "set ?as \<subseteq> set xs" "set ?bs \<subseteq> set xs"
    using split by (metis Un_upper1 set_append, metis Un_upper2 set_append)
  show ?thesis
    using a_le b_gt sa sb sy xy hy assms(2) sub
    by (fastforce simp: sorted_append)
qed

lemma sorted_down:
  assumes "sorted (xs @ h # ys)" "\<not> v < (h::int)"
  shows "sorted (xs @ takeWhile (\<lambda>y. v > y) ys @ v # dropWhile (\<lambda>y. v > y) ys)"
proof -
  let ?as = "takeWhile (\<lambda>y. v > y) ys" and ?bs = "dropWhile (\<lambda>y. v > y) ys"
  have split: "ys = ?as @ ?bs" by simp
  from assms have sx: "sorted xs" and sy: "sorted ys" and xy: "\<forall>x\<in>set xs. \<forall>y\<in>set ys. x \<le> y"
    and xh: "\<forall>x\<in>set xs. x \<le> h"
    by (auto simp: sorted_append)
  have b_ge: "\<forall>b\<in>set ?bs. v \<le> b"
    using dropWhile_sorted_ge [OF sy] by blast
  have a_lt: "\<forall>a\<in>set ?as. a < v"
    using set_takeWhileD [of _ "\<lambda>y. v > y" ys] by auto
  from sy split have sa: "sorted ?as" and sb: "sorted ?bs"
    by (metis sorted_append)+
  have sub: "set ?as \<subseteq> set ys" "set ?bs \<subseteq> set ys"
    by (auto dest: set_takeWhileD set_dropWhileD)
  show ?thesis
    using a_lt b_ge sa sb sx xy xh assms(2) sub
    by (fastforce simp: sorted_append)
qed


lemma next_idx_less: "next_idx w < WINSIZE"
  by (simp add: next_idx_def WINSIZE_def)

lemma mset_take_drop_replace:
  "i < length win \<Longrightarrow> mset (take i win @ v # drop (Suc i) win) = mset (win[i := v])"
  by (simp add: upd_conv_take_nth_drop)

lemma updateIPMSWin_step:
  assumes ok: "window_ok w"
  shows "\<exists>i0 wl i win'. find_rem (gIPMSWin w) (gIPMSRing w ! next_idx w) 0 = Some i0 \<and> i0 < WINSIZE \<and>
           (if v < gIPMSRing w ! next_idx w then bubble_up (gIPMSWin w) v i0
            else bubble_down (gIPMSWin w) v i0) = Some (wl, i) \<and>
           i < WINSIZE \<and> length wl = WINSIZE \<and>
           updateIPMSWin v w = Some (win' ! (WINSIZE div 2),
             \<lparr> gIPMSWin = win', gIPMSRing = (gIPMSRing w)[next_idx w := v],
               gIPMSRingIdx = next_idx w \<rparr>) \<and>
           length win' = WINSIZE \<and> sorted win' \<and>
           mset win' = mset ((gIPMSRing w)[next_idx w := v])"
proof -
  let ?win = "gIPMSWin w" and ?ring = "gIPMSRing w" and ?idx = "next_idx w"
  let ?rem = "?ring ! ?idx"
  from ok have lw: "length ?win = WINSIZE" and lr: "length ?ring = WINSIZE"
    and sw: "sorted ?win" and ms: "mset ?win = mset ?ring"
    by (simp_all add: window_ok_def)
  have idx: "?idx < length ?ring" using next_idx_less lr by simp
  then have "?rem \<in> set ?ring" by simp
  with ms have "?rem \<in> set ?win" by (metis set_mset_mset)
  then have "?rem \<in> set (drop 0 ?win)" by simp
  from find_rem_finds [OF this] obtain i0 where
    f: "find_rem ?win ?rem 0 = Some i0" and i0: "i0 < length ?win" and at: "?win ! i0 = ?rem"
    by blast
  obtain xs ys where dec: "?win = xs @ ?rem # ys" and lxs: "length xs = i0"
    using i0 at id_take_nth_drop [of i0 ?win] by (metis length_take min.absorb2 less_imp_le)
  have msr: "mset (?ring[?idx := v]) = add_mset v (mset ?ring - {#?rem#})"
    using idx by (simp add: mset_update)
  have msw: "mset (xs @ ys) = mset ?win - {#?rem#}"
    by (subst dec) simp
  obtain wl i' res where
    b: "(if v < ?rem then bubble_up ?win v i0 else bubble_down ?win v i0) = Some (wl, i')"
    and i': "i' < length wl" and res: "wl[i' := v] = res"
    and sres: "sorted res" and mres: "mset res = add_mset v (mset (xs @ ys))"
  proof (cases "v < ?rem")
    case True
    from bubble_up_spec [of xs ?rem ys v] obtain wl i' where
      r: "bubble_up (xs @ ?rem # ys) v (length xs) = Some (wl, i')" "i' < length wl"
         "wl[i' := v] = rev (dropWhile ((<) v) (rev xs)) @ v # rev (takeWhile ((<) v) (rev xs)) @ ys"
      by blast
    have s: "sorted (wl[i' := v])"
      unfolding r(3) using sorted_up [of xs ?rem ys v] sw dec True by simp
    have "mset (rev (dropWhile ((<) v) (rev xs))) + mset (rev (takeWhile ((<) v) (rev xs))) = mset xs"
      by (metis mset_append mset_rev takeWhile_dropWhile_id union_commute)
    then have m: "mset (wl[i' := v]) = add_mset v (mset (xs @ ys))"
      unfolding r(3) by (simp add: ac_simps)
    from r(1) dec lxs True have "(if v < ?rem then bubble_up ?win v i0 else bubble_down ?win v i0) = Some (wl, i')"
      by simp
    with r(2) s m show ?thesis using that by blast
  next
    case False
    have "length (xs @ ?rem # ys) = WINSIZE" using dec lw by simp
    from bubble_down_spec [OF this, of v] obtain wl i' where
      r: "bubble_down (xs @ ?rem # ys) v (length xs) = Some (wl, i')" "i' < length wl"
         "wl[i' := v] = xs @ takeWhile (\<lambda>y. v > y) ys @ v # dropWhile (\<lambda>y. v > y) ys"
      by blast
    have s: "sorted (wl[i' := v])"
      unfolding r(3) using sorted_down [of xs ?rem ys v] sw dec False by simp
    have "mset (takeWhile (\<lambda>y. v > y) ys) + mset (dropWhile (\<lambda>y. v > y) ys) = mset ys"
      by (metis mset_append takeWhile_dropWhile_id)
    then have m: "mset (wl[i' := v]) = add_mset v (mset (xs @ ys))"
      unfolding r(3) by (simp add: ac_simps)
    from r(1) dec lxs False have "(if v < ?rem then bubble_up ?win v i0 else bubble_down ?win v i0) = Some (wl, i')"
      by simp
    with r(2) s m show ?thesis using that by blast
  qed
  have mres': "mset res = mset (?ring[?idx := v])"
    using mres msw msr ms by simp
  then have "size (mset res) = size (mset (?ring[?idx := v]))" by simp
  then have lres: "length res = WINSIZE" using lr by simp
  have "updateIPMSWin v w = Some (res ! (WINSIZE div 2),
             \<lparr> gIPMSWin = res, gIPMSRing = ?ring[?idx := v], gIPMSRingIdx = ?idx \<rparr>)"
    using f b i' res lres idx
    by (simp add: updateIPMSWin_def next_idx_def Let_def WINSIZE_def)
  moreover have "length wl = WINSIZE" "i' < WINSIZE"
    using res lres i' by auto
  ultimately show ?thesis
    using f i0 lw lres sres mres' b by auto
qed


lemma updateIPMSWin_ok:
  "window_ok w \<Longrightarrow> \<exists>med w'. updateIPMSWin v w = Some (med, w') \<and> window_ok w'"
  using updateIPMSWin_step [of w v] unfolding window_ok_def by fastforce

lemma drop_Suc_snoc: "n < length L \<Longrightarrow> drop (Suc n) (L @ [v]) = tl (drop n L) @ [v]"
  by (cases L) (auto simp: drop_Suc tl_drop)

lemma recent_snoc: "recent (vs @ [v]) = tl (recent vs) @ [v]"
proof -
  have "length vs < length (replicate WINSIZE (0::int) @ vs)"
    by (simp add: WINSIZE_def)
  from drop_Suc_snoc [OF this, of v] show ?thesis
    by (simp add: recent_def)
qed

lemma rotate_replicate_same: "rotate n (replicate k x) = replicate k x"
proof (induction n)
  case 0
  show ?case by simp
next
  case (Suc n)
  have "rotate1 (replicate k x) = replicate k x"
    by (cases k) (simp_all add: replicate_append_same)
  with Suc show ?case by simp
qed

lemma ring_rotate_step:
  assumes "length ring = WINSIZE" "gIPMSRingIdx w < WINSIZE"
  shows "rotate (Suc (next_idx w)) (ring[next_idx w := v]) = tl (rotate (Suc (gIPMSRingIdx w)) ring) @ [v]"
proof -
  let ?j = "next_idx w"
  have j: "?j < length ring" using next_idx_less assms by simp
  have jmod: "Suc (gIPMSRingIdx w) mod length ring = ?j mod length ring"
  proof (cases "gIPMSRingIdx w = 18")
    case True
    then show ?thesis using assms by (simp add: next_idx_def WINSIZE_def)
  next
    case False
    then show ?thesis using assms by (simp add: next_idx_def WINSIZE_def)
  qed
  have "rotate (Suc (gIPMSRingIdx w)) ring = rotate ?j ring"
    using rotate_conv_mod [of "Suc (gIPMSRingIdx w)" ring] rotate_conv_mod [of ?j ring] jmod by simp
  also have "\<dots> = drop ?j ring @ take ?j ring"
    using j by (simp add: rotate_drop_take)
  also have "\<dots> = (ring ! ?j # drop (Suc ?j) ring) @ take ?j ring"
    using j by (simp add: Cons_nth_drop_Suc)
  finally have old: "tl (rotate (Suc (gIPMSRingIdx w)) ring) = drop (Suc ?j) ring @ take ?j ring"
    by simp
  have "rotate ?j (ring[?j := v]) = drop ?j (ring[?j := v]) @ take ?j (ring[?j := v])"
    using j by (simp add: rotate_drop_take)
  also have "\<dots> = (v # drop (Suc ?j) ring) @ take ?j ring"
    using j by (simp add: drop_update_cancel take_update_cancel Cons_nth_drop_Suc [symmetric] upd_conv_take_nth_drop)
  finally have "rotate (Suc ?j) (ring[?j := v]) = drop (Suc ?j) ring @ take ?j ring @ [v]"
    by simp
  with old show ?thesis by simp
qed

lemma observe_all_append:
  "observe_all (xs @ ys) mw =
     (case observe_all xs mw of None \<Rightarrow> None | Some mw' \<Rightarrow> observe_all ys mw')"
  by (induction xs arbitrary: mw) (auto split: option.splits)

lemma window_ok_init: "window_ok window_init"
  by (simp add: window_ok_def window_init_def)

lemma observe_all_reach:
  "\<exists>m w. observe_all vs (m0, window_init) = Some (m, w) \<and> window_ok w \<and>
     gIPMSRingIdx w < WINSIZE \<and>
     rotate (Suc (gIPMSRingIdx w)) (gIPMSRing w) = recent vs \<and>
     (if vs = [] then m = m0 else m = gIPMSWin w ! (WINSIZE div 2))"
proof (induction vs rule: rev_induct)
  case Nil
  show ?case
    using window_ok_init by (simp add: recent_def) (simp add: window_init_def rotate_replicate_same WINSIZE_def)
next
  case (snoc v vs)
  then obtain m w where r: "observe_all vs (m0, window_init) = Some (m, w)" and ok: "window_ok w"
    and ix: "gIPMSRingIdx w < WINSIZE"
    and h: "rotate (Suc (gIPMSRingIdx w)) (gIPMSRing w) = recent vs"
    by blast
  from updateIPMSWin_step [OF ok, of v] obtain win' where
    u: "updateIPMSWin v w = Some (win' ! (WINSIZE div 2),
          \<lparr> gIPMSWin = win', gIPMSRing = (gIPMSRing w)[next_idx w := v], gIPMSRingIdx = next_idx w \<rparr>)"
    and p: "length win' = WINSIZE" "sorted win'" "mset win' = mset ((gIPMSRing w)[next_idx w := v])"
    by blast
  let ?w' = "\<lparr> gIPMSWin = win', gIPMSRing = (gIPMSRing w)[next_idx w := v], gIPMSRingIdx = next_idx w \<rparr>"
  from ok have lr: "length (gIPMSRing w) = WINSIZE" by (simp add: window_ok_def)
  have ok': "window_ok ?w'" using p lr by (simp add: window_ok_def)
  have h': "rotate (Suc (gIPMSRingIdx ?w')) (gIPMSRing ?w') = recent (vs @ [v])"
    using ring_rotate_step [OF lr ix, of v] h by (simp add: recent_snoc)
  have "observe_all (vs @ [v]) (m0, window_init) = Some (win' ! (WINSIZE div 2), ?w')"
    using r u by (simp add: observe_all_append)
  with ok' h' next_idx_less [of w] show ?case by simp
qed

lemma mset_rotate_same: "mset (rotate n xs) = mset xs"
proof -
  have "mset (take k xs) + mset (drop k xs) = mset xs" for k
    by (metis append_take_drop_id mset_append)
  then show ?thesis
    by (simp add: rotate_drop_take union_commute)
qed

lemma sorted_window_is_sort:
  assumes "window_ok w" "rotate n (gIPMSRing w) = vs"
  shows "gIPMSWin w = sort vs"
proof -
  from assms have "mset (gIPMSWin w) = mset vs" "sorted (gIPMSWin w)"
    by (auto simp: window_ok_def mset_rotate_same)
  then show ?thesis by (metis properties_for_sort)
qed



subsection \<open>The median window: claims\<close>

text \<open>
  C1. Median correctness. Whatever values have been fed to the window since its initial
  state of \<open>WINSIZE\<close> zeros, the call of \<open>updateIPMSWin\<close> for the next value \<open>v\<close>
  returns, and the value it returns is the element at index \<open>WINSIZE div 2 = 9\<close> of the
  ascending sort of the \<open>WINSIZE\<close> most recent values (the zeros of the initial window
  count until they are overwritten). This holds after every insertion, so in
  particular for sequences of more than 19 values.
\<close>

theorem median_correct:
  "(\<exists>w. observe_all (vs @ [v]) (m0, window_init) = Some (sort (recent (vs @ [v])) ! 9, w)) \<and>
   length (recent (vs @ [v])) = 19 \<and>
   recent (vs @ [v]) = drop (length vs + 1) (replicate 19 0 @ vs @ [v])"
proof -
  have n: "WINSIZE div 2 = 9" "WINSIZE = 19" by (simp_all add: WINSIZE_def)
  have l: "length (recent (vs @ [v])) = 19"
    "recent (vs @ [v]) = drop (length vs + 1) (replicate 19 0 @ vs @ [v])"
    by (simp_all add: recent_def WINSIZE_def)
  from observe_all_reach [of "vs @ [v]" m0] obtain m w where
    r: "observe_all (vs @ [v]) (m0, window_init) = Some (m, w)" and ok: "window_ok w"
    and h: "rotate (Suc (gIPMSRingIdx w)) (gIPMSRing w) = recent (vs @ [v])"
    and m: "m = gIPMSWin w ! (WINSIZE div 2)"
    by auto
  from sorted_window_is_sort [OF ok h] m r l n show ?thesis by simp
qed

text \<open>
  C5. Window invariant. After any sequence of \<open>updateIPMSWin\<close> calls from the initial
  all-zero window, every call has returned, both arrays still have \<open>WINSIZE\<close>
  elements, the sorted view is in ascending order and it holds the same multiset of
  values as the ring.
\<close>

theorem window_invariant:
  "\<exists>m w. observe_all vs (m0, window_init) = Some (m, w) \<and>
     length (gIPMSWin w) = WINSIZE \<and> length (gIPMSRing w) = WINSIZE \<and>
     sorted (gIPMSWin w) \<and> mset (gIPMSWin w) = mset (gIPMSRing w)"
  using observe_all_reach [of vs m0] by (auto simp: window_ok_def)

text \<open>
  C10. No access out of bounds. In every state \<open>w\<close> reached from the initial window and
  for every next value \<open>v\<close>: the scan for the evicted value ends at an index below
  \<open>WINSIZE\<close>; the loop that moves the hole (up when \<open>v\<close> is smaller than the evicted
  value, down otherwise) ends, at an index below \<open>WINSIZE\<close>, without reading or writing
  outside the \<open>WINSIZE\<close> elements; and the whole call returns. The model
  returns \<open>None\<close> at any access outside an array.
\<close>

theorem updateIPMSWin_in_bounds:
  "\<exists>m w i0 wl i r. observe_all vs (m0, window_init) = Some (m, w) \<and>
     length (gIPMSWin w) = WINSIZE \<and> length (gIPMSRing w) = WINSIZE \<and>
     next_idx w < WINSIZE \<and>
     find_rem (gIPMSWin w) (gIPMSRing w ! next_idx w) 0 = Some i0 \<and> i0 < WINSIZE \<and>
     (if v < gIPMSRing w ! next_idx w then bubble_up (gIPMSWin w) v i0
      else bubble_down (gIPMSWin w) v i0) = Some (wl, i) \<and>
     i < WINSIZE \<and> length wl = WINSIZE \<and>
     updateIPMSWin v w = Some r"
proof -
  from observe_all_reach [of vs m0] obtain m w where
    r: "observe_all vs (m0, window_init) = Some (m, w)" and ok: "window_ok w"
    by blast
  from updateIPMSWin_step [OF ok, of v] obtain i0 wl i r where
    "find_rem (gIPMSWin w) (gIPMSRing w ! next_idx w) 0 = Some i0" "i0 < WINSIZE"
    "(if v < gIPMSRing w ! next_idx w then bubble_up (gIPMSWin w) v i0
      else bubble_down (gIPMSWin w) v i0) = Some (wl, i)"
    "i < WINSIZE" "length wl = WINSIZE" "updateIPMSWin v w = Some r"
    by blast
  with r ok next_idx_less [of w] show ?thesis
    unfolding window_ok_def by blast
qed

subsection \<open>The rate controller\<close>

lemma elapsed_time_uint:
  "uint (elapsed_time cur lastTime) = max ((uint cur - uint lastTime) mod 2 ^ 64) 1"
proof -
  have d: "uint (cur - lastTime) = (uint cur - uint lastTime) mod 2 ^ 64"
    by (simp add: uint_word_ariths)
  have lt: "(cur - lastTime < 1) = (cur - lastTime = 0)"
    by (simp add: word_less_1)
  show ?thesis
  proof (cases "cur - lastTime = 0")
    case True
    then have "uint (cur - lastTime) = 0" by simp
    with True d show ?thesis by (simp add: elapsed_time_def lt)
  next
    case False
    then have "uint (cur - lastTime) \<noteq> 0" by (simp add: uint_0_iff)
    moreover have "0 \<le> uint (cur - lastTime)" by simp
    ultimately have "1 \<le> uint (cur - lastTime)" by linarith
    with False d show ?thesis by (simp add: elapsed_time_def lt Let_def)
  qed
qed

text \<open>
  C4 (as amended). The divisor of the division is never zero. It is the difference of the
  two time readings in \<open>uint64_t\<close>, that is modulo \<open>2^64\<close>, raised to 1 when it is
  0; so it equals \<open>max (now - lastTimestamp) 1\<close> whenever
  \<open>lastTimestamp \<le> now\<close>.
\<close>

theorem elapsed_time_floor:
  "uint (elapsed_time cur lastTime) = max ((uint cur - uint lastTime) mod 2 ^ 64) 1 \<and>
   elapsed_time cur lastTime \<noteq> 0 \<and>
   (lastTime \<le> cur \<longrightarrow> uint (elapsed_time cur lastTime) = max (uint cur - uint lastTime) 1)"
proof -
  have a: "uint (elapsed_time cur lastTime) = max ((uint cur - uint lastTime) mod 2 ^ 64) 1"
    by (rule elapsed_time_uint)
  then have "uint (elapsed_time cur lastTime) \<noteq> 0" by simp
  then have b: "elapsed_time cur lastTime \<noteq> 0" by auto
  have c: "uint (elapsed_time cur lastTime) = max (uint cur - uint lastTime) 1" if "lastTime \<le> cur"
  proof -
    from that have "uint lastTime \<le> uint cur" by (simp add: word_le_def)
    moreover have "uint cur < 2 ^ 64" using uint_lt2p [of cur] by simp
    moreover have "0 \<le> uint lastTime" by simp
    ultimately have "(uint cur - uint lastTime) mod 2 ^ 64 = uint cur - uint lastTime"
      by (intro mod_pos_pos_trivial) linarith+
    with a show ?thesis by simp
  qed
  from a b c show ?thesis by blast
qed

theorem elapsed_time_floor_witness:
  "(100 :: 64 word) \<le> 350 \<and> uint (elapsed_time 350 100) = 250 \<and> uint (elapsed_time 7 7) = 1"
  using elapsed_time_floor [of 350 100] elapsed_time_floor [of 7 7] by simp

text \<open>
  When the clock reads 100 after having read 200, the elapsed time is \<open>2^64 - 100\<close>,
  where the maximum of the difference and 1 is 1.
\<close>

theorem elapsed_time_wraps_counterexample:
  "uint (elapsed_time 100 200) = 18446744073709551516 \<and>
   max (uint (100 :: 64 word) - uint (200 :: 64 word)) 1 = 1"
  by (simp add: elapsed_time_def)

lemma countHook_result:
  assumes "window_ok (ipmsWindow s)"
  shows "\<exists>med w ln wb. updateIPMSWin (ipms_of (gLastCount s) (elapsed_time cur (gLastTime s))) (ipmsWindow s) = Some (med, w) \<and>
           window_ok w \<and> getARLine L ar 0 (gSourceHead s) = (ln, wb) \<and>
           countHook L ar cur t s = Some (s\<lparr> ipmsWindow := w, gLastCount := max med 1,
                        hookmask := HOOKMASK, hookcount := max med 1,
                        gSourceHead := wb (Line (line ln) (count' ln + 1) (callHead ln)),
                        gLastTime := t \<rparr>)"
proof -
  from updateIPMSWin_ok [OF assms, of "ipms_of (gLastCount s) (elapsed_time cur (gLastTime s))"]
  obtain med w where u: "updateIPMSWin (ipms_of (gLastCount s) (elapsed_time cur (gLastTime s))) (ipmsWindow s) = Some (med, w)"
    and ok: "window_ok w"
    by blast
  obtain ln wb where g: "getARLine L ar 0 (gSourceHead s) = (ln, wb)"
    by (cases "getARLine L ar 0 (gSourceHead s)")
  have "max med 1 = (if med < 1 then 1 else med)" by simp
  with u g ok show ?thesis
    by (simp add: countHook_def Let_def)
qed

lemma countHook_ok:
  "window_ok (ipmsWindow s) \<Longrightarrow>
   \<exists>s'. countHook L ar cur t s = Some s' \<and> window_ok (ipmsWindow s')"
  using countHook_result [of s cur L ar t] by auto

text \<open>
  C6. Rate clamping. In every state whose window is well formed (as it is in every state
  the profiler reaches), for every value of \<open>gLastCount\<close> (the instructions executed)
  and all time readings, so whatever the value of \<open>ipms\<close> is, \<open>countHook\<close> returns,
  the interval it stores in \<open>gLastCount\<close> is at least 1, and that is the count it passes
  to \<open>lua_sethook\<close>. The window is well formed again afterwards.
\<close>

theorem countHook_interval_ge_1:
  "window_ok (ipmsWindow s) \<Longrightarrow>
   \<exists>s'. countHook L ar cur t s = Some s' \<and> 1 \<le> gLastCount s' \<and>
        hookcount s' = gLastCount s' \<and> hookmask s' = HOOKMASK \<and> window_ok (ipmsWindow s')"
  using countHook_result [of s cur L ar t] by auto

theorem countHook_interval_ge_1_witness:
  "\<exists>s'. countHook [] \<lparr> ar_event = LUA_HOOKCOUNT, ar_source = 7, ar_linedefined = 20 \<rparr> 100 101 profiler_init = Some s' \<and>
      1 \<le> gLastCount s' \<and> hookcount s' = gLastCount s' \<and> hookmask s' = HOOKMASK \<and> window_ok (ipmsWindow s')"
  using countHook_interval_ge_1 [of profiler_init "[]" "\<lparr> ar_event = LUA_HOOKCOUNT, ar_source = 7, ar_linedefined = 20 \<rparr>" 100 101]
  by (simp add: profiler_init_def window_ok_init)

subsection \<open>Find or create\<close>

lemma LLFIND_Some:
  "LLFIND key k prev xs = Some (cur, rest) \<Longrightarrow>
   \<exists>pre post. xs = pre @ cur # post \<and> key cur = k \<and> (\<forall>p\<in>set pre. key p \<noteq> k) \<and>
     rest = prev @ pre @ post"
proof (induction xs arbitrary: prev)
  case Nil
  then show ?case by simp
next
  case (Cons x xs)
  show ?case
  proof (cases "key x = k")
    case True
    with Cons.prems have "cur = x" "rest = prev @ xs" by auto
    with True show ?thesis by (intro exI [of _ "[]"] exI [of _ xs]) simp
  next
    case False
    with Cons.prems have "LLFIND key k (prev @ [x]) xs = Some (cur, rest)" by simp
    from Cons.IH [OF this] obtain pre post where
      "xs = pre @ cur # post" "key cur = k" "\<forall>p\<in>set pre. key p \<noteq> k" "rest = (prev @ [x]) @ pre @ post"
      by blast
    with False show ?thesis
      by (intro exI [of _ "x # pre"] exI [of _ post]) simp
  qed
qed

lemma LLFIND_None: "LLFIND key k prev xs = None \<longleftrightarrow> k \<notin> key ` set xs"
  by (induction xs arbitrary: prev) auto

lemma find_or_create:
  assumes "(case LLFIND key k [] xs of Some found \<Rightarrow> found | None \<Rightarrow> (new, xs)) = (cur, rest)"
  shows "if k \<in> key ` set xs
         then key cur = k \<and> (\<exists>pre post. xs = pre @ cur # post \<and> (\<forall>p\<in>set pre. key p \<noteq> k) \<and> rest = pre @ post) \<and>
              mset (cur # rest) = mset xs
         else cur = new \<and> rest = xs"
proof (cases "LLFIND key k [] xs")
  case None
  with assms LLFIND_None [of key k "[]" xs] show ?thesis by simp
next
  case (Some found)
  with assms have f: "LLFIND key k [] xs = Some (cur, rest)" by simp
  from LLFIND_Some [OF f] obtain pre post where
    d: "xs = pre @ cur # post" "key cur = k" "\<forall>p\<in>set pre. key p \<noteq> k" "rest = pre @ post"
    by auto
  then have "k \<in> key ` set xs" by force
  moreover from d have "mset (cur # rest) = mset xs" by simp
  ultimately show ?thesis using d by auto
qed

text \<open>
  On lists: the node returned for a key that a node of the list has is the first such
  node, the nodes before and after it follow it in their old order; for a key that no
  node has it is the new node, in front of the unchanged list.
\<close>

lemma find_or_create_lists:
  assumes "getLine lhead n = (lcur, lrest)" and "getSource shead c = (scur, srest)"
  shows "(if n \<in> line ` set lhead
          then line lcur = n \<and>
               (\<exists>pre post. lhead = pre @ lcur # post \<and> (\<forall>p\<in>set pre. line p \<noteq> n) \<and> lrest = pre @ post) \<and>
               mset (lcur # lrest) = mset lhead
          else lcur = Line n 0 [] \<and> lrest = lhead) \<and>
         (if c \<in> source ` set shead
          then source scur = c \<and>
               (\<exists>pre post. shead = pre @ scur # post \<and> (\<forall>p\<in>set pre. source p \<noteq> c) \<and> srest = pre @ post) \<and>
               mset (scur # srest) = mset shead
          else scur = Source c [] \<and> srest = shead)"
  using find_or_create [where key = line and k = n and xs = lhead and new = "Line n 0 []"
                          and cur = lcur and rest = lrest]
        find_or_create [where key = source and k = c and xs = shead and new = "Source c []"
                          and cur = scur and rest = srest] assms
  unfolding getLine_def getSource_def by blast


subsection \<open>Find or create on the store\<close>

lemma lseg_append:
  "lseg h p (as @ bs) q \<longleftrightarrow> (\<exists>r. lseg h p as r \<and> lseg h r bs q)"
  by (induction as arbitrary: p) auto

lemma lseg_unique:
  "lseg h p as None \<Longrightarrow> lseg h p bs None \<Longrightarrow> as = bs"
proof (induction as arbitrary: p bs)
  case Nil
  then show ?case by (cases bs) auto
next
  case (Cons a as)
  then show ?case by (cases bs) auto
qed

lemma llist_distinct: "llist h p as \<Longrightarrow> distinct as"
proof (induction as arbitrary: p)
  case Nil
  show ?case by simp
next
  case (Cons a as)
  from Cons.prems obtain n where n: "h a = Some n" "llist h (link n) as"
    by (auto simp: llist_def)
  have "a \<notin> set as"
  proof
    assume "a \<in> set as"
    then obtain bs cs where d: "as = bs @ a # cs" by (auto simp: in_set_conv_decomp)
    with n(2) have "lseg h (Some a) (a # cs) None"
      by (auto simp: llist_def lseg_append)
    moreover from Cons.prems have "lseg h (Some a) (a # as) None"
      by (simp add: llist_def)
    ultimately have "a # cs = a # as" by (rule lseg_unique)
    with d show False by simp
  qed
  with Cons.IH [OF n(2)] show ?case by simp
qed

lemma lseg_frame:
  "a \<notin> set as \<Longrightarrow> lseg (h(a \<mapsto> n)) p as q \<longleftrightarrow> lseg h p as q"
  by (induction as arbitrary: p) auto


lemma lseg_snoc:
  "lseg h p (as @ [b]) q \<longleftrightarrow> (\<exists>n. lseg h p as (Some b) \<and> h b = Some n \<and> link n = q)"
  by (auto simp: lseg_append)

lemma lseg_last_node:
  "lseg h p as q \<Longrightarrow> as \<noteq> [] \<Longrightarrow> \<exists>n. h (last as) = Some n \<and> link n = q"
  by (induction as arbitrary: p) (auto split: if_splits)

lemma LLFIND_store_loop:
  assumes "lseg h head pre cur" "lseg h cur rest None" "distinct (pre @ rest)"
    "prevNext = (if pre = [] then AtHead else AtNext (last pre))"
  shows "case find (\<lambda>a. key (cont h a) = k) rest of
           None \<Rightarrow> LLFIND_store key k prevNext cur (h, head) = Some None
         | Some c \<Rightarrow>
             (\<exists>h'. LLFIND_store key k prevNext cur (h, head) = Some (Some (c, h', Some c)) \<and>
                lseg h' (Some c) (c # pre @ remove1 c rest) None \<and>
                (\<forall>a. map_option content (h' a) = map_option content (h a)) \<and>
                (\<forall>a. a \<notin> set (pre @ rest) \<longrightarrow> h' a = h a))"
  using assms
proof (induction rest arbitrary: pre prevNext cur)
  case Nil
  then have "cur = None" by simp
  moreover have "LLFIND_store key k prevNext None (h, head) = Some None"
    by (subst LLFIND_store.simps) simp
  ultimately show ?case by simp
next
  case (Cons c post)
  from Cons.prems(2) obtain n where cur: "cur = Some c" and n: "h c = Some n"
    and post: "lseg h (link n) post None" by auto
  from Cons.prems(3) have dist: "distinct pre" "distinct post" "c \<notin> set pre" "c \<notin> set post"
    "set pre \<inter> set post = {}" by auto
  show ?case
  proof (cases "key (content n) = k")
    case True
    then have f: "find (\<lambda>a. key (cont h a) = k) (c # post) = Some c"
      by (simp add: cont_def n)
    show ?thesis
    proof (cases "pre = []")
      case True
      with Cons.prems(4) have pn: "prevNext = AtHead" by simp
      let ?h' = "h(c \<mapsto> n\<lparr>link := link n\<rparr>)"
      have run: "LLFIND_store key k prevNext cur (h, head) = Some (Some (c, ?h', Some c))"
        using \<open>key (content n) = k\<close> n
        by (subst LLFIND_store.simps) (simp add: cur pn store_ptr_def)
      have same: "?h' = h" using n by (auto simp: fun_eq_iff)
      from n post have "lseg h (Some c) (c # post) None" by simp
      then have l: "lseg h (Some c) (c # pre @ remove1 c (c # post)) None"
        using True by simp
      from run same have run': "LLFIND_store key k prevNext cur (h, head) = Some (Some (c, h, Some c))"
        by simp
      have "\<exists>h'. LLFIND_store key k prevNext cur (h, head) = Some (Some (c, h', Some c)) \<and>
                lseg h' (Some c) (c # pre @ remove1 c (c # post)) None \<and>
                (\<forall>a. map_option content (h' a) = map_option content (h a)) \<and>
                (\<forall>a. a \<notin> set (pre @ c # post) \<longrightarrow> h' a = h a)"
        using run' l by blast
      with f show ?thesis by (simp only: option.case)
    next
      case False
      then obtain pre' b where pre: "pre = pre' @ [b]" by (cases pre rule: rev_cases) auto
      with Cons.prems(4) have pn: "prevNext = AtNext b" by simp
      from Cons.prems(1) pre cur obtain nb where
        seg: "lseg h head pre' (Some b)" and nb: "h b = Some nb" "link nb = Some c"
        by (auto simp: lseg_snoc)
      from dist pre have ne: "b \<noteq> c" "b \<notin> set pre'" "b \<notin> set post" "c \<notin> set pre'" by auto
      let ?h1 = "h(b \<mapsto> nb\<lparr>link := link n\<rparr>)"
      let ?h' = "?h1(c \<mapsto> n\<lparr>link := head\<rparr>)"
      have run: "LLFIND_store key k prevNext cur (h, head) = Some (Some (c, ?h', Some c))"
        using \<open>key (content n) = k\<close> n nb ne(1)
        by (subst LLFIND_store.simps) (simp add: cur pn store_ptr_def)
      have s1: "lseg ?h' head pre' (Some b)"
        using seg ne by (simp add: lseg_frame)
      have s2: "lseg ?h' (link n) post None"
        using post ne dist by (simp add: lseg_frame)
      have "lseg ?h' head (pre' @ [b]) (link n)"
        using s1 ne(1) by (simp add: lseg_snoc)
      with s2 have "lseg ?h' head (pre @ post) None"
        unfolding pre by (subst lseg_append) blast
      then have l: "lseg ?h' (Some c) (c # pre @ remove1 c (c # post)) None"
        by simp
      have c1: "\<forall>a. map_option content (?h' a) = map_option content (h a)"
        using n nb by simp
      have c2: "\<forall>a. a \<notin> set (pre @ c # post) \<longrightarrow> ?h' a = h a"
        using pre by simp
      have "\<exists>h'. LLFIND_store key k prevNext cur (h, head) = Some (Some (c, h', Some c)) \<and>
                lseg h' (Some c) (c # pre @ remove1 c (c # post)) None \<and>
                (\<forall>a. map_option content (h' a) = map_option content (h a)) \<and>
                (\<forall>a. a \<notin> set (pre @ c # post) \<longrightarrow> h' a = h a)"
        using run l c1 c2 by blast
      with f show ?thesis by (simp only: option.case)
    qed
  next
    case False
    have step: "LLFIND_store key k prevNext cur (h, head) =
        LLFIND_store key k (AtNext c) (link n) (h, head)"
      using False n by (subst LLFIND_store.simps) (simp add: cur)
    have 1: "lseg h head (pre @ [c]) (link n)"
      using Cons.prems(1) cur n by (simp add: lseg_snoc)
    have 2: "distinct ((pre @ [c]) @ post)" using Cons.prems(3) by simp
    have 3: "AtNext c = (if pre @ [c] = [] then AtHead else AtNext (last (pre @ [c])))" by simp
    note IH = Cons.IH [OF 1 post 2 3]
    have ff: "find (\<lambda>a. key (cont h a) = k) (c # post) = find (\<lambda>a. key (cont h a) = k) post"
      using False n by (simp add: cont_def)
    show ?thesis
    proof (cases "find (\<lambda>a. key (cont h a) = k) post")
      case None
      with IH ff step show ?thesis by simp
    next
      case (Some c')
      then have "c' \<in> set post" by (auto simp: find_Some_iff)
      with dist have "c' \<noteq> c" by auto
      then have "(pre @ [c]) @ remove1 c' post = pre @ remove1 c' (c # post)" by simp
      with IH Some ff step show ?thesis by (simp del: append_assoc remove1.simps)
    qed
  qed
qed


lemma llist_dom: "llist h p as \<Longrightarrow> set as \<subseteq> dom h"
  unfolding llist_def by (induction as arbitrary: p) auto

lemma find_decomp:
  "find P xs = Some c \<Longrightarrow>
   \<exists>pre post. xs = pre @ c # post \<and> P c \<and> (\<forall>a\<in>set pre. \<not> P a) \<and> remove1 c xs = pre @ post"
proof (induction xs)
  case Nil
  then show ?case by simp
next
  case (Cons x xs)
  show ?case
  proof (cases "P x")
    case True
    with Cons.prems have "x = c" by simp
    with True show ?thesis by (intro exI [of _ "[]"] exI [of _ xs]) simp
  next
    case False
    with Cons.prems have "find P xs = Some c" by simp
    from Cons.IH [OF this] obtain pre post where
      d: "xs = pre @ c # post" "P c" "\<forall>a\<in>set pre. \<not> P a" "remove1 c xs = pre @ post" by blast
    with False have "x \<noteq> c" by auto
    with d False show ?thesis
      by (intro exI [of _ "x # pre"] exI [of _ post]) simp
  qed
qed

lemma find_or_create_store_spec:
  assumes "llist h head as" "new \<notin> dom h"
  shows "\<exists>cur h' rest.
     find_or_create_store key k init (Some new) (h, head) = Some (cur, h', Some cur) \<and>
     llist h' (Some cur) (cur # rest) \<and>
     (if k \<in> (\<lambda>a. key (cont h a)) ` set as
      then key (cont h cur) = k \<and>
           (\<exists>pre post. as = pre @ cur # post \<and> (\<forall>a\<in>set pre. key (cont h a) \<noteq> k) \<and>
              rest = pre @ post) \<and>
           (\<forall>a. map_option content (h' a) = map_option content (h a)) \<and>
           (\<forall>a. a \<notin> set as \<longrightarrow> h' a = h a)
      else cur = new \<and> rest = as \<and> h' = h(new \<mapsto> \<lparr> link = head, content = init \<rparr>))"
proof -
  let ?P = "\<lambda>a. key (cont h a) = k"
  have d: "distinct ([] @ as)" using llist_distinct [OF assms(1)] by simp
  have s0: "lseg h head [] head" by simp
  have s1: "lseg h head as None" using assms(1) by (simp add: llist_def)
  note L = LLFIND_store_loop [OF s0 s1 d, of AtHead key k, simplified]
  show ?thesis
  proof (cases "find ?P as")
    case None
    then have nk: "k \<notin> (\<lambda>a. key (cont h a)) ` set as"
      by (auto simp: find_None_iff)
    from L None have run: "LLFIND_store key k AtHead head (h, head) = Some None" by simp
    let ?h' = "h(new \<mapsto> \<lparr> link = head, content = init \<rparr>)"
    have r: "find_or_create_store key k init (Some new) (h, head) = Some (new, ?h', Some new)"
      by (simp add: find_or_create_store_def run)
    from llist_dom [OF assms(1)] assms(2) have "new \<notin> set as" by auto
    with s1 have "lseg ?h' head as None" by (simp add: lseg_frame)
    then have "llist ?h' (Some new) (new # as)" by (simp add: llist_def)
    with r nk show ?thesis by auto
  next
    case (Some c)
    from find_decomp [OF Some] obtain pre post where
      dc: "as = pre @ c # post" "key (cont h c) = k" "\<forall>a\<in>set pre. key (cont h a) \<noteq> k"
        "remove1 c as = pre @ post" by blast
    then have ik: "k \<in> (\<lambda>a. key (cont h a)) ` set as" by force
    from L Some obtain h' where
      run: "LLFIND_store key k AtHead head (h, head) = Some (Some (c, h', Some c))"
      and l: "lseg h' (Some c) (c # remove1 c as) None"
      and c1: "\<forall>a. map_option content (h' a) = map_option content (h a)"
      and c2: "\<forall>a. a \<notin> set as \<longrightarrow> h' a = h a"
      by auto
    have r: "find_or_create_store key k init (Some new) (h, head) = Some (c, h', Some c)"
      by (simp add: find_or_create_store_def run)
    from l have "llist h' (Some c) (c # remove1 c as)" by (simp add: llist_def)
    with r ik dc c1 c2 show ?thesis
      by (intro exI [of _ c] exI [of _ h'] exI [of _ "remove1 c as"]) auto
  qed
qed

lemma LLFIND_decomp:
  "(\<forall>p\<in>set pre. key p \<noteq> k) \<Longrightarrow> key c = k \<Longrightarrow>
   LLFIND key k prev (pre @ c # post) = Some (c, prev @ pre @ post)"
  by (induction pre arbitrary: prev) auto

lemma find_or_create_store_refines:
  assumes "llist h head as" "new \<notin> dom h"
    and "find_or_create_store key k init (Some new) (h, head) = Some (cur, h', hd')"
    and "llist h' hd' (cur # rest)"
    and kf: "\<And>c. key' (f c) = key c"
  shows "(f (cont h' cur), map (\<lambda>a. f (cont h' a)) rest) =
         (case LLFIND key' k [] (map (\<lambda>a. f (cont h a)) as) of
            Some found \<Rightarrow> found
          | None \<Rightarrow> (f init, map (\<lambda>a. f (cont h a)) as))"
proof -
  from find_or_create_store_spec [OF assms(1,2), of key k init] assms(3) obtain rest0 where
    l0: "llist h' (Some cur) (cur # rest0)" and hd': "hd' = Some cur"
    and c: "if k \<in> (\<lambda>a. key (cont h a)) ` set as
      then key (cont h cur) = k \<and>
           (\<exists>pre post. as = pre @ cur # post \<and> (\<forall>a\<in>set pre. key (cont h a) \<noteq> k) \<and>
              rest0 = pre @ post) \<and>
           (\<forall>a. map_option content (h' a) = map_option content (h a)) \<and>
           (\<forall>a. a \<notin> set as \<longrightarrow> h' a = h a)
      else cur = new \<and> rest0 = as \<and> h' = h(new \<mapsto> \<lparr> link = head, content = init \<rparr>)"
    by auto
  from l0 assms(4) hd' have rest: "rest0 = rest"
    using lseg_unique [of h' "Some cur" "cur # rest0" "cur # rest"] by (simp add: llist_def)
  have dom: "set as \<subseteq> dom h" by (rule llist_dom [OF assms(1)])
  let ?g = "\<lambda>a. f (cont h a)"
  show ?thesis
  proof (cases "k \<in> (\<lambda>a. key (cont h a)) ` set as")
    case True
    from c [unfolded if_P [OF True]] have c': "key (cont h cur) = k \<and>
           (\<exists>pre post. as = pre @ cur # post \<and> (\<forall>a\<in>set pre. key (cont h a) \<noteq> k) \<and>
              rest0 = pre @ post) \<and>
           (\<forall>a. map_option content (h' a) = map_option content (h a)) \<and>
           (\<forall>a. a \<notin> set as \<longrightarrow> h' a = h a)" .
    then obtain pre post where
      d: "as = pre @ cur # post" "\<forall>a\<in>set pre. key (cont h a) \<noteq> k" "rest = pre @ post"
        "key (cont h cur) = k"
      unfolding rest by blast
    from c' have same: "\<forall>a. map_option content (h' a) = map_option content (h a)"
      by blast
    have eq: "cont h' a = cont h a" if "a \<in> set as" for a
    proof -
      from that dom obtain n where "h a = Some n" by auto
      with same [rule_format, of a] show ?thesis by (auto simp: cont_def)
    qed
    have "LLFIND key' k [] (map ?g (pre @ cur # post)) = Some (?g cur, [] @ map ?g pre @ map ?g post)"
      using LLFIND_decomp [of "map ?g pre" key' k "?g cur" "[]" "map ?g post"] d(2,4) kf by simp
    moreover have "f (cont h' cur) = ?g cur" using eq [of cur] d(1) by simp
    moreover have "map (\<lambda>a. f (cont h' a)) rest = map ?g pre @ map ?g post"
      using eq d(1,3) by simp
    ultimately show ?thesis using d(1) by simp
  next
    case False
    from c [unfolded if_not_P [OF False]]
    have "cur = new \<and> rest0 = as \<and> h' = h(new \<mapsto> \<lparr> link = head, content = init \<rparr>)" .
    with rest have n: "cur = new" "rest = as" "h' = h(new \<mapsto> \<lparr> link = head, content = init \<rparr>)"
      by blast+
    from False kf have "k \<notin> key' ` set (map ?g as)" by auto
    then have "LLFIND key' k [] (map ?g as) = None" by (simp add: LLFIND_None)
    moreover have "cont h' cur = init" using n by (simp add: cont_def)
    moreover have "map (\<lambda>a. f (cont h' a)) rest = map ?g as"
    proof -
      from dom assms(2) have "new \<notin> set as" by auto
      then show ?thesis using n by (auto simp: cont_def)
    qed
    ultimately show ?thesis by simp
  qed
qed


text \<open>
  C8. Move to front. Let \<open>*head\<close> be a null-terminated list of the allocated nodes
  \<open>as\<close>, and let \<open>malloc\<close> return an address that is not allocated. Then \<open>getLine\<close>
  returns, and \<open>*head\<close> is the returned node \<open>cur\<close>, followed by the nodes \<open>rest\<close>.
  When a node of the list has the key, \<open>cur\<close> is the first such node, \<open>rest\<close> are the
  other nodes in their old order, the fields other than \<open>next\<close> of every node are what
  they were, and nothing outside the list has changed. When no node has the key,
  \<open>cur\<close> is the new node, with the key, count 0 and no children, its \<open>next\<close> is the old
  \<open>*head\<close> and nothing else has changed. Under any reading \<open>f\<close> of a node's fields as
  a \<open>Line\<close> that keeps the key and reads the new node as \<open>Line n 0 []\<close>, the list after
  the call is what the function \<open>getLine\<close> on lists computes from the list before the
  call. The same holds for \<open>getSource\<close>.
\<close>

theorem move_to_front:
  assumes "llist h head as" and "new \<notin> dom h" and "llist hs shead bs" and "snew \<notin> dom hs"
  shows "(\<exists>cur h' rest.
            getLine_store n (Some new) (h, head) = Some (cur, h', Some cur) \<and>
            llist h' (Some cur) (cur # rest) \<and>
            (if n \<in> (\<lambda>a. f_line (cont h a)) ` set as
             then f_line (cont h cur) = n \<and>
                  (\<exists>pre post. as = pre @ cur # post \<and> (\<forall>a\<in>set pre. f_line (cont h a) \<noteq> n) \<and>
                     rest = pre @ post) \<and>
                  (\<forall>a. map_option content (h' a) = map_option content (h a)) \<and>
                  (\<forall>a. a \<notin> set as \<longrightarrow> h' a = h a)
             else cur = new \<and> rest = as \<and>
                  h' = h(new \<mapsto> \<lparr> link = head,
                          content = \<lparr> f_line = n, f_count = 0, f_callHead = None \<rparr> \<rparr>)) \<and>
            (\<forall>f. (\<forall>c. line (f c) = f_line c) \<and>
                 f \<lparr> f_line = n, f_count = 0, f_callHead = None \<rparr> = Line n 0 [] \<longrightarrow>
                 (f (cont h' cur), map (\<lambda>a. f (cont h' a)) rest) =
                 getLine (map (\<lambda>a. f (cont h a)) as) n)) \<and>
         (\<exists>cur h' rest.
            getSource_store c (Some snew) (hs, shead) = Some (cur, h', Some cur) \<and>
            llist h' (Some cur) (cur # rest) \<and>
            (if c \<in> (\<lambda>a. f_source (cont hs a)) ` set bs
             then f_source (cont hs cur) = c \<and>
                  (\<exists>pre post. bs = pre @ cur # post \<and> (\<forall>a\<in>set pre. f_source (cont hs a) \<noteq> c) \<and>
                     rest = pre @ post) \<and>
                  (\<forall>a. map_option content (h' a) = map_option content (hs a)) \<and>
                  (\<forall>a. a \<notin> set bs \<longrightarrow> h' a = hs a)
             else cur = snew \<and> rest = bs \<and>
                  h' = hs(snew \<mapsto> \<lparr> link = shead,
                          content = \<lparr> f_source = c, f_lineHead = None \<rparr> \<rparr>)) \<and>
            (\<forall>f. (\<forall>d. source (f d) = f_source d) \<and>
                 f \<lparr> f_source = c, f_lineHead = None \<rparr> = Source c [] \<longrightarrow>
                 (f (cont h' cur), map (\<lambda>a. f (cont h' a)) rest) =
                 getSource (map (\<lambda>a. f (cont hs a)) bs) c))"
proof -
  let ?li = "\<lparr> f_line = n, f_count = 0, f_callHead = None \<rparr>"
  let ?si = "\<lparr> f_source = c, f_lineHead = None \<rparr>"
  from find_or_create_store_spec [OF assms(1,2), of f_line n ?li] obtain cur h' rest where
    L: "getLine_store n (Some new) (h, head) = Some (cur, h', Some cur)"
      "llist h' (Some cur) (cur # rest)"
      "if n \<in> (\<lambda>a. f_line (cont h a)) ` set as
       then f_line (cont h cur) = n \<and>
            (\<exists>pre post. as = pre @ cur # post \<and> (\<forall>a\<in>set pre. f_line (cont h a) \<noteq> n) \<and>
               rest = pre @ post) \<and>
            (\<forall>a. map_option content (h' a) = map_option content (h a)) \<and>
            (\<forall>a. a \<notin> set as \<longrightarrow> h' a = h a)
       else cur = new \<and> rest = as \<and> h' = h(new \<mapsto> \<lparr> link = head, content = ?li \<rparr>)"
    unfolding getLine_store_def by blast
  have LR: "(f (cont h' cur), map (\<lambda>a. f (cont h' a)) rest) = getLine (map (\<lambda>a. f (cont h a)) as) n"
    if "\<forall>c. line (f c) = f_line c" "f ?li = Line n 0 []" for f
    using find_or_create_store_refines [OF assms(1,2) L(1) [unfolded getLine_store_def] L(2),
        of line f] that
    by (simp add: getLine_def split: option.splits)
  from find_or_create_store_spec [OF assms(3,4), of f_source c ?si] obtain scur sh' srest where
    S: "getSource_store c (Some snew) (hs, shead) = Some (scur, sh', Some scur)"
      "llist sh' (Some scur) (scur # srest)"
      "if c \<in> (\<lambda>a. f_source (cont hs a)) ` set bs
       then f_source (cont hs scur) = c \<and>
            (\<exists>pre post. bs = pre @ scur # post \<and> (\<forall>a\<in>set pre. f_source (cont hs a) \<noteq> c) \<and>
               srest = pre @ post) \<and>
            (\<forall>a. map_option content (sh' a) = map_option content (hs a)) \<and>
            (\<forall>a. a \<notin> set bs \<longrightarrow> sh' a = hs a)
       else scur = snew \<and> srest = bs \<and> sh' = hs(snew \<mapsto> \<lparr> link = shead, content = ?si \<rparr>)"
    unfolding getSource_store_def by blast
  have SR: "(f (cont sh' scur), map (\<lambda>a. f (cont sh' a)) srest) = getSource (map (\<lambda>a. f (cont hs a)) bs) c"
    if "\<forall>d. source (f d) = f_source d" "f ?si = Source c []" for f
    using find_or_create_store_refines [OF assms(3,4) S(1) [unfolded getSource_store_def] S(2),
        of source f] that
    by (simp add: getSource_def split: option.splits)
  from L LR have A: "\<exists>cur h' rest.
            getLine_store n (Some new) (h, head) = Some (cur, h', Some cur) \<and>
            llist h' (Some cur) (cur # rest) \<and>
            (if n \<in> (\<lambda>a. f_line (cont h a)) ` set as
             then f_line (cont h cur) = n \<and>
                  (\<exists>pre post. as = pre @ cur # post \<and> (\<forall>a\<in>set pre. f_line (cont h a) \<noteq> n) \<and>
                     rest = pre @ post) \<and>
                  (\<forall>a. map_option content (h' a) = map_option content (h a)) \<and>
                  (\<forall>a. a \<notin> set as \<longrightarrow> h' a = h a)
             else cur = new \<and> rest = as \<and>
                  h' = h(new \<mapsto> \<lparr> link = head, content = ?li \<rparr>)) \<and>
            (\<forall>f. (\<forall>c. line (f c) = f_line c) \<and> f ?li = Line n 0 [] \<longrightarrow>
                 (f (cont h' cur), map (\<lambda>a. f (cont h' a)) rest) =
                 getLine (map (\<lambda>a. f (cont h a)) as) n)"
    by blast
  from S SR have B: "\<exists>cur h' rest.
            getSource_store c (Some snew) (hs, shead) = Some (cur, h', Some cur) \<and>
            llist h' (Some cur) (cur # rest) \<and>
            (if c \<in> (\<lambda>a. f_source (cont hs a)) ` set bs
             then f_source (cont hs cur) = c \<and>
                  (\<exists>pre post. bs = pre @ cur # post \<and> (\<forall>a\<in>set pre. f_source (cont hs a) \<noteq> c) \<and>
                     rest = pre @ post) \<and>
                  (\<forall>a. map_option content (h' a) = map_option content (hs a)) \<and>
                  (\<forall>a. a \<notin> set bs \<longrightarrow> h' a = hs a)
             else cur = snew \<and> rest = bs \<and>
                  h' = hs(snew \<mapsto> \<lparr> link = shead, content = ?si \<rparr>)) \<and>
            (\<forall>f. (\<forall>d. source (f d) = f_source d) \<and> f ?si = Source c [] \<longrightarrow>
                 (f (cont h' cur), map (\<lambda>a. f (cont h' a)) rest) =
                 getSource (map (\<lambda>a. f (cont hs a)) bs) c)"
    by blast
  from A B show ?thesis by (rule conjI)
qed


theorem move_to_front_witness:
  "(\<exists>cur h' rest.
      getLine_store 2 (Some 12) (example_lines, Some 10) = Some (cur, h', Some cur) \<and>
      llist h' (Some cur) (cur # rest) \<and>
      (if 2 \<in> (\<lambda>a. f_line (cont example_lines a)) ` set [10, 11]
       then f_line (cont example_lines cur) = 2 \<and>
            (\<exists>pre post. [10, 11] = pre @ cur # post \<and>
               (\<forall>a\<in>set pre. f_line (cont example_lines a) \<noteq> 2) \<and> rest = pre @ post) \<and>
            (\<forall>a. map_option content (h' a) = map_option content (example_lines a)) \<and>
            (\<forall>a. a \<notin> set [10, 11] \<longrightarrow> h' a = example_lines a)
       else cur = 12 \<and> rest = [10, 11] \<and>
            h' = example_lines(12 \<mapsto> \<lparr> link = Some 10,
                    content = \<lparr> f_line = 2, f_count = 0, f_callHead = None \<rparr> \<rparr>)) \<and>
      (\<forall>f. (\<forall>c. line (f c) = f_line c) \<and>
           f \<lparr> f_line = 2, f_count = 0, f_callHead = None \<rparr> = Line 2 0 [] \<longrightarrow>
           (f (cont h' cur), map (\<lambda>a. f (cont h' a)) rest) =
           getLine (map (\<lambda>a. f (cont example_lines a)) [10, 11]) 2)) \<and>
   (\<exists>cur h' rest.
      getSource_store 9 (Some 31) (example_sources, Some 30) = Some (cur, h', Some cur) \<and>
      llist h' (Some cur) (cur # rest) \<and>
      (if 9 \<in> (\<lambda>a. f_source (cont example_sources a)) ` set [30]
       then f_source (cont example_sources cur) = 9 \<and>
            (\<exists>pre post. [30] = pre @ cur # post \<and>
               (\<forall>a\<in>set pre. f_source (cont example_sources a) \<noteq> 9) \<and> rest = pre @ post) \<and>
            (\<forall>a. map_option content (h' a) = map_option content (example_sources a)) \<and>
            (\<forall>a. a \<notin> set [30] \<longrightarrow> h' a = example_sources a)
       else cur = 31 \<and> rest = [30] \<and>
            h' = example_sources(31 \<mapsto> \<lparr> link = Some 30,
                    content = \<lparr> f_source = 9, f_lineHead = None \<rparr> \<rparr>)) \<and>
      (\<forall>f. (\<forall>d. source (f d) = f_source d) \<and>
           f \<lparr> f_source = 9, f_lineHead = None \<rparr> = Source 9 [] \<longrightarrow>
           (f (cont h' cur), map (\<lambda>a. f (cont h' a)) rest) =
           getSource (map (\<lambda>a. f (cont example_sources a)) [30]) 9))"
proof -
  have 1: "llist example_lines (Some 10) [10, 11]"
    by (simp add: llist_def example_lines_def)
  have 2: "12 \<notin> dom example_lines"
    by (simp add: example_lines_def)
  have 3: "llist example_sources (Some 30) [30]"
    by (simp add: llist_def example_sources_def)
  have 4: "31 \<notin> dom example_sources"
    by (simp add: example_sources_def)
  show ?thesis
    by (rule move_to_front [OF 1 2 3 4, where n = 2 and c = 9])
qed

text \<open>The node with line 2 is unlinked from behind the node at 10 and linked in front of it.\<close>

lemma store_example:
  "map_option (\<lambda>(cur, h', hd'). (cur, hd', map h' [10, 11]))
     (getLine_store 2 (Some 12) (example_lines, Some 10)) =
   Some (11, Some 11,
     [Some \<lparr> link = None, content = \<lparr> f_line = 1, f_count = 5, f_callHead = None \<rparr> \<rparr>,
      Some \<lparr> link = Some 10, content = \<lparr> f_line = 2, f_count = 7, f_callHead = Some 20 \<rparr> \<rparr>])"
  by code_simp

subsection \<open>Recording a stack\<close>

lemma visit_path_snoc:
  "ks \<noteq> [] \<Longrightarrow>
   visit_path (ks @ [k]) f g =
   visit_path ks (\<lambda>x. Line (line x) (count' x) (snd (step k (callHead x)) (f (fst (step k (callHead x)))))) g"
proof (induction ks arbitrary: g)
  case Nil
  then show ?case by simp
next
  case (Cons a ks)
  show ?case
  proof (cases ks)
    case Nil
    then show ?thesis by (simp add: split_def Let_def)
  next
    case (Cons b ks')
    with Cons.IH [of "callHead (fst (step a g))"] show ?thesis
      by (simp add: split_def Let_def)
  qed
qed

lemma getARLine_visit:
  "getARLine L ar depth g = (ln, wb) \<Longrightarrow>
   wb (f ln) = visit_path (rev (map frame_key (ar # drop (Suc depth) L))) f g"
proof (induction L ar depth g arbitrary: ln wb f rule: getARLine.induct)
  case (1 L ar depth g)
  show ?case
  proof (cases "depth + 1 < length L")
    case False
    then have "drop (Suc depth) L = []" by simp
    moreover from False "1.prems" have "step (frame_key ar) g = (ln, wb)"
      by (simp add: getARLine.simps [of L ar depth g] step_def frame_key_def split_def Let_def)
    ultimately show ?thesis by simp
  next
    case True
    obtain ln1 wb1 where r: "getARLine L (L ! (depth + 1)) (depth + 1) g = (ln1, wb1)"
      by fastforce
    let ?k = "frame_key ar"
    let ?p = "rev (map frame_key (L ! (depth + 1) # drop (Suc (depth + 1)) L))"
    from True r "1.prems" have ln: "ln = fst (step ?k (callHead ln1))"
      and wb: "wb = (\<lambda>l. wb1 (Line (line ln1) (count' ln1) (snd (step ?k (callHead ln1)) l)))"
      by (auto simp: getARLine.simps [of L ar depth g] step_def frame_key_def split_def Let_def)
    have d: "drop (Suc depth) L = L ! (depth + 1) # drop (Suc (depth + 1)) L"
      using True by (simp add: Cons_nth_drop_Suc)
    have "wb (f ln) = wb1 ((\<lambda>x. Line (line x) (count' x) (snd (step ?k (callHead x)) (f (fst (step ?k (callHead x)))))) ln1)"
      by (simp add: ln wb)
    also have "\<dots> = visit_path ?p (\<lambda>x. Line (line x) (count' x) (snd (step ?k (callHead x)) (f (fst (step ?k (callHead x)))))) g"
      using "1.IH" [OF True r] .
    also have "\<dots> = visit_path (?p @ [?k]) f g"
      by (rule visit_path_snoc [symmetric]) simp
    finally show ?thesis by (simp add: d)
  qed
qed

lemma countHook_forest:
  assumes "countHook L ar cur t s = Some s'"
  shows "gSourceHead s' = recordSample (stack_path L ar) (gSourceHead s)"
proof -
  obtain ln wb where g: "getARLine L ar 0 (gSourceHead s) = (ln, wb)" by fastforce
  from assms g have "gSourceHead s' = wb (incr ln)"
    by (auto simp: countHook_def incr_def Let_def split: option.splits)
  with getARLine_visit [OF g, of incr] show ?thesis
    by (simp add: recordSample_def stack_path_def)
qed


lemma uniq_sources_iff:
  "uniq_sources g \<longleftrightarrow> distinct (map source g) \<and> (\<forall>s\<in>set g. uniq_lines (lineHead s))"
proof (induction g)
  case Nil
  show ?case by simp
next
  case (Cons s g)
  then show ?case by (cases s) auto
qed

lemma uniq_lines_iff:
  "uniq_lines ls \<longleftrightarrow> distinct (map line ls) \<and> (\<forall>l\<in>set ls. uniq_sources (callHead l))"
proof (induction ls)
  case Nil
  show ?case by simp
next
  case (Cons l ls)
  then show ?case by (cases l) auto
qed

lemma LLFIND_find:
  "map_option fst (LLFIND key k prev xs) = find (\<lambda>x. key x = k) xs"
  by (induction xs arbitrary: prev) auto

lemma distinct_map_move:
  assumes "distinct (map key (pre @ cur # post))"
  shows "distinct (map key (cur # pre @ post))"
  using assms by auto

text \<open>What one lookup yields, for any key selector.\<close>

lemma lookup_cases:
  assumes "(case LLFIND key k [] xs of Some found \<Rightarrow> found | None \<Rightarrow> (new, xs)) = (cur, rest)"
    and "key new = k"
  shows "key cur = k"
    and "find (\<lambda>x. key x = k) xs = (if k \<in> key ` set xs then Some cur else None)"
    and "k \<notin> key ` set xs \<Longrightarrow> cur = new"
    and "cur \<in> set xs \<or> cur = new"
    and "set rest \<subseteq> set xs"
    and "distinct (map key xs) \<Longrightarrow> distinct (map key (cur # rest))"
proof -
  show "key cur = k" "cur \<in> set xs \<or> cur = new" "set rest \<subseteq> set xs"
    "k \<notin> key ` set xs \<Longrightarrow> cur = new"
    using assms LLFIND_Some [of key k "[]" xs cur rest]
    by (auto split: option.splits simp: LLFIND_None)
  show "find (\<lambda>x. key x = k) xs = (if k \<in> key ` set xs then Some cur else None)"
    using assms LLFIND_find [of key k "[]" xs] LLFIND_None [of key k "[]" xs]
    by (cases "LLFIND key k [] xs") (auto simp: find_None_iff)
  show "distinct (map key (cur # rest))" if d: "distinct (map key xs)"
  proof (cases "LLFIND key k [] xs")
    case None
    with assms have "cur = new" "rest = xs" "k \<notin> key ` set xs"
      using LLFIND_None [of key k "[]" xs] by auto
    with d assms(2) show ?thesis by auto
  next
    case (Some found)
    with assms have "LLFIND key k [] xs = Some (cur, rest)" by simp
    from LLFIND_Some [OF this] obtain pre post where
      "xs = pre @ cur # post" "rest = pre @ post" by auto
    with d show ?thesis by auto
  qed
qed


lemma find_node_Nil: "find_node qs [] = None"
  by (cases qs) auto

lemma step_props:
  assumes st: "step k g = (ln, wb)"
  shows "line ln = snd k"
    and "count_at [k] g = count' ln"
    and "qs \<noteq> [] \<Longrightarrow> find_node (k # qs) g = find_node qs (callHead ln)"
    and "line l' = snd k \<Longrightarrow>
         find_node (k # qs) (wb l') = (if qs = [] then Some l' else find_node qs (callHead l'))"
    and "uniq_sources g \<Longrightarrow> uniq_sources (callHead ln)"
    and "uniq_sources g \<Longrightarrow> line l' = snd k \<Longrightarrow> uniq_sources (callHead l') \<Longrightarrow> uniq_sources (wb l')"
proof -
  obtain c n where k: "k = (c, n)" by (cases k)
  obtain src srest where gs: "getSource g c = (src, srest)" by fastforce
  obtain ln0 lrest where gl: "getLine (lineHead src) n = (ln0, lrest)" by fastforce
  from st k gs gl have ln: "ln0 = ln" and wb: "wb = (\<lambda>l. Source (source src) (l # lrest) # srest)"
    by (auto simp: step_def)
  note S = lookup_cases [where key = source and k = c and xs = g and new = "Source c []"
      and cur = src and rest = srest, OF gs [unfolded getSource_def], simplified]
  note L = lookup_cases [where key = line and k = n and xs = "lineHead src" and new = "Line n 0 []"
      and cur = ln and rest = lrest, OF gl [unfolded getLine_def ln], simplified]
  show a: "line ln = snd k" using L(1) k by simp
  have absent: "c \<notin> source ` set g \<Longrightarrow> lineHead src = []"
    using S(3) by auto
  have absent': "n \<notin> line ` set (lineHead src) \<Longrightarrow> count' ln = 0 \<and> callHead ln = []"
    using L(3) by auto
  show "count_at [k] g = count' ln"
    using S(2) L(2) absent absent' k
    by (auto simp: count_at_def split: option.splits if_splits)
  show "find_node (k # qs) g = find_node qs (callHead ln)" if "qs \<noteq> []"
    using that S(2) L(2) absent absent' k
    by (auto simp: find_node_Nil split: option.splits if_splits)
  show "find_node (k # qs) (wb l') = (if qs = [] then Some l' else find_node qs (callHead l'))"
    if "line l' = snd k"
    using that S(1) k by (simp add: wb)
  have ul: "uniq_lines (lineHead src)" if "uniq_sources g"
    using that S(4) by (auto simp: uniq_sources_iff [of g])
  show "uniq_sources (callHead ln)" if "uniq_sources g"
    using ul [OF that] L(4) by (auto simp: uniq_lines_iff [of "lineHead src"])
  show "uniq_sources (wb l')" if u: "uniq_sources g" and l': "line l' = snd k"
    and c': "uniq_sources (callHead l')"
  proof -
    from u have dg: "distinct (map source g)" and ug: "\<forall>s\<in>set g. uniq_lines (lineHead s)"
      by (simp_all add: uniq_sources_iff [of g])
    from ul [OF u] have dl: "distinct (map line (lineHead src))"
      and ull: "\<forall>l\<in>set (lineHead src). uniq_sources (callHead l)"
      by (simp_all add: uniq_lines_iff [of "lineHead src"])
    have 1: "distinct (map line (l' # lrest))"
      using L(6) [OF dl] L(1) l' k by simp
    have 2: "\<forall>l\<in>set (l' # lrest). uniq_sources (callHead l)"
      using c' ull L(5) by auto
    have 3: "uniq_lines (l' # lrest)"
      using 1 2 by (simp add: uniq_lines_iff [of "l' # lrest"])
    have 4: "distinct (map source (Source (source src) (l' # lrest) # srest))"
      using S(6) [OF dg] by simp
    have 5: "\<forall>s\<in>set srest. uniq_lines (lineHead s)"
      using ug S(5) by auto
    have 6: "uniq_sources srest"
      using 4 5 by (simp add: uniq_sources_iff [of srest])
    show ?thesis
      unfolding wb using 3 4 6 by simp
  qed
qed


lemma incr_simps [simp]:
  "line (incr ln) = line ln" "count' (incr ln) = count' ln + 1" "callHead (incr ln) = callHead ln"
  by (simp_all add: incr_def)

lemma visit_once_gen:
  "f = incr \<Longrightarrow> p \<noteq> [] \<Longrightarrow> uniq_sources g \<Longrightarrow>
   uniq_sources (visit_path p incr g) \<and>
   (\<forall>i. 0 < i \<and> i \<le> length p \<longrightarrow>
      (\<exists>l. find_node (take i p) (visit_path p incr g) = Some l \<and>
           count' l = count_at (take i p) g + (if i = length p then 1 else 0)))"
proof (induction p f g rule: visit_path.induct)
  case (1 f g)
  then show ?case by simp
next
  case (2 k f g)
  obtain ln wb where st: "step k g = (ln, wb)" by fastforce
  note P = step_props [OF st]
  have v: "visit_path [k] incr g = wb (incr ln)" using st by simp
  have u: "uniq_sources (wb (incr ln))"
    using P(6) [of "incr ln"] P(5) P(1) "2.prems" by simp
  have f: "find_node [k] (wb (incr ln)) = Some (incr ln)"
    using P(4) [of "incr ln" "[]"] P(1) by simp
  have "\<exists>l. find_node (take i [k]) (visit_path [k] incr g) = Some l \<and>
           count' l = count_at (take i [k]) g + (if i = length [k] then 1 else 0)"
    if "0 < i \<and> i \<le> length [k]" for i
  proof -
    from that have "i = 1" by simp
    then show ?thesis using f v P(2) by simp
  qed
  with u v show ?case by simp
next
  case (3 k k' ks f g)
  obtain ln wb where st: "step k g = (ln, wb)" by fastforce
  note P = step_props [OF st]
  let ?sub = "visit_path (k' # ks) incr (callHead ln)"
  let ?l' = "Line (line ln) (count' ln) ?sub"
  have v: "visit_path (k # k' # ks) incr g = wb ?l'" using st by simp
  from "3.prems" have ug: "uniq_sources g" by simp
  have IH: "uniq_sources ?sub \<and>
    (\<forall>i. 0 < i \<and> i \<le> length (k' # ks) \<longrightarrow>
      (\<exists>l. find_node (take i (k' # ks)) ?sub = Some l \<and>
           count' l = count_at (take i (k' # ks)) (callHead ln) + (if i = length (k' # ks) then 1 else 0)))"
    using "3.IH" [OF st [symmetric] refl] "3.prems"(1) P(5) [OF ug] by simp
  have u: "uniq_sources (wb ?l')"
    using P(6) [of ?l'] P(1) ug IH by simp
  have "\<exists>l. find_node (take i (k # k' # ks)) (wb ?l') = Some l \<and>
           count' l = count_at (take i (k # k' # ks)) g + (if i = length (k # k' # ks) then 1 else 0)"
    if i: "0 < i \<and> i \<le> length (k # k' # ks)" for i
  proof (cases "i = 1")
    case True
    have "find_node [k] (wb ?l') = Some ?l'"
      using P(4) [of ?l' "[]"] P(1) by simp
    with True P(2) show ?thesis by simp
  next
    case False
    with i obtain j where j: "i = Suc j" "0 < j" "j \<le> length (k' # ks)"
      by (cases i) auto
    let ?q = "take j (k' # ks)"
    from j have q: "?q \<noteq> []" by (cases j) auto
    from IH j obtain l where l: "find_node ?q ?sub = Some l"
      "count' l = count_at ?q (callHead ln) + (if j = length (k' # ks) then 1 else 0)"
      by blast
    have "find_node (k # ?q) (wb ?l') = find_node ?q ?sub"
      using P(4) [of ?l' ?q] P(1) q by simp
    moreover have "count_at (k # ?q) g = count_at ?q (callHead ln)"
      using P(3) [OF q] by (simp add: count_at_def)
    ultimately show ?thesis using l j by simp
  qed
  with u v show ?case by simp
qed

lemmas visit_once = visit_once_gen [OF refl]


lemma record_many:
  "p \<noteq> [] \<Longrightarrow> uniq_sources g \<Longrightarrow>
   uniq_sources ((recordSample p ^^ N) g) \<and>
   (0 < N \<longrightarrow> (\<forall>i. 0 < i \<and> i \<le> length p \<longrightarrow>
      (\<exists>l. find_node (take i p) ((recordSample p ^^ N) g) = Some l \<and>
           count' l = count_at (take i p) g + (if i = length p then of_nat N else 0))))"
proof (induction N)
  case 0
  then show ?case by simp
next
  case (Suc N)
  let ?g = "(recordSample p ^^ N) g"
  from Suc have ug: "uniq_sources ?g" by simp
  from visit_once [OF Suc.prems(1) ug]
  have u: "uniq_sources (recordSample p ?g)"
    and one: "\<And>i. 0 < i \<Longrightarrow> i \<le> length p \<Longrightarrow>
      \<exists>l. find_node (take i p) (recordSample p ?g) = Some l \<and>
           count' l = count_at (take i p) ?g + (if i = length p then 1 else 0)"
    by (auto simp: recordSample_def)
  have "\<exists>l. find_node (take i p) (recordSample p ?g) = Some l \<and>
           count' l = count_at (take i p) g + (if i = length p then of_nat (Suc N) else 0)"
    if i: "0 < i" "i \<le> length p" for i
  proof (cases "N = 0")
    case True
    from one [OF i] obtain l where "find_node (take i p) (recordSample p ?g) = Some l"
      "count' l = count_at (take i p) ?g + (if i = length p then 1 else 0)" by blast
    with True show ?thesis by (cases "i = length p") auto
  next
    case False
    with Suc i obtain l0 where "find_node (take i p) ?g = Some l0"
      "count' l0 = count_at (take i p) g + (if i = length p then of_nat N else 0)"
      by auto
    then have "count_at (take i p) ?g = count_at (take i p) g + (if i = length p then of_nat N else 0)"
      by (simp add: count_at_def)
    with one [OF i] show ?thesis by auto
  qed
  with u show ?case by simp
qed

lemma countHooks_forest:
  "window_ok (ipmsWindow s) \<Longrightarrow>
   \<exists>s'. countHooks L ar ts s = Some s' \<and> window_ok (ipmsWindow s') \<and>
        gSourceHead s' = (recordSample (stack_path L ar) ^^ length ts) (gSourceHead s)"
proof (induction ts arbitrary: s)
  case Nil
  then show ?case by simp
next
  case (Cons ct ts)
  obtain cur t where ct: "ct = (cur, t)" by (cases ct)
  from countHook_ok [OF Cons.prems, of L ar cur t] obtain s1 where
    h: "countHook L ar cur t s = Some s1" and ok: "window_ok (ipmsWindow s1)"
    by blast
  from Cons.IH [OF ok] obtain s' where
    r: "countHooks L ar ts s1 = Some s'" "window_ok (ipmsWindow s')"
       "gSourceHead s' = (recordSample (stack_path L ar) ^^ length ts) (gSourceHead s1)"
    by blast
  from countHook_forest [OF h] r h ct show ?case
    by (simp add: funpow_swap1)
qed

lemma find_filter_distinct:
  "distinct (map key xs) \<Longrightarrow> find (\<lambda>x. key x = k) xs = Some x \<Longrightarrow>
   filter (\<lambda>x. key x = k) xs = [x]"
proof (induction xs)
  case Nil
  then show ?case by simp
next
  case (Cons a xs)
  show ?case
  proof (cases "key a = k")
    case True
    with Cons.prems have "a = x" by simp
    moreover from Cons.prems(1) have "key a \<notin> key ` set xs" by simp
    with True have "\<forall>y\<in>set xs. key y \<noteq> k" by blast
    ultimately show ?thesis using True by (simp add: filter_empty_conv)
  next
    case False
    with Cons show ?thesis by simp
  qed
qed

lemma matches_single:
  assumes "uniq_sources ns" "find_node [k] ns = Some l"
  shows "matches k ns = [l]"
proof -
  obtain c n where k: "k = (c, n)" by (cases k)
  from assms(2) k obtain s where s: "find (\<lambda>s. source s = c) ns = Some s"
    and l: "find (\<lambda>l. line l = n) (lineHead s) = Some l"
    by (auto split: option.splits)
  from assms(1) have d: "distinct (map source ns)" and u: "\<forall>s\<in>set ns. uniq_lines (lineHead s)"
    by (simp_all add: uniq_sources_iff [of ns])
  from s have "s \<in> set ns" by (auto simp: find_Some_iff)
  with u have "uniq_lines (lineHead s)" by blast
  then have "distinct (map line (lineHead s))" by (simp add: uniq_lines_iff [of "lineHead s"])
  from find_filter_distinct [OF this l] find_filter_distinct [OF d s] k
  show ?thesis by (simp add: matches_def)
qed

lemma find_node_snoc:
  "q \<noteq> [] \<Longrightarrow> find_node (q @ [k]) g =
     (case find_node q g of None \<Rightarrow> None | Some l \<Rightarrow> find_node [k] (callHead l))"
proof (induction q g rule: find_node.induct)
  case (1 g)
  then show ?case by simp
next
  case (2 c n ks g)
  show ?case
  proof (cases "ks = []")
    case True
    then show ?thesis by (simp split: option.splits)
  next
    case False
    with 2 show ?thesis by (simp split: option.splits)
  qed
qed

lemma find_node_uniq:
  "uniq_sources g \<Longrightarrow> find_node q g = Some l \<Longrightarrow> uniq_sources (callHead l)"
proof (induction q g rule: find_node.induct)
  case (1 g)
  then show ?case by simp
next
  case (2 c n ks g)
  from "2.prems"(2) obtain s l0 where s: "find (\<lambda>s. source s = c) g = Some s"
    and l0: "find (\<lambda>l. line l = n) (lineHead s) = Some l0"
    and r: "(if ks = [] then Some l0 else find_node ks (callHead l0)) = Some l"
    by (auto split: option.splits)
  from s have "s \<in> set g" by (auto simp: find_Some_iff)
  with "2.prems"(1) have "uniq_lines (lineHead s)" by (simp add: uniq_sources_iff [of g])
  moreover from l0 have "l0 \<in> set (lineHead s)" by (auto simp: find_Some_iff)
  ultimately have u0: "uniq_sources (callHead l0)" by (simp add: uniq_lines_iff [of "lineHead s"])
  show ?case
  proof (cases "ks = []")
    case True
    with r u0 show ?thesis by simp
  next
    case False
    with r have "find_node ks (callHead l0) = Some l" by simp
    from "2.IH" [OF s l0 False u0 this] show ?thesis .
  qed
qed

lemma namespace_uniq: "uniq_sources g \<Longrightarrow> uniq_sources (namespace q g)"
  using find_node_uniq [of g q] by (auto simp: namespace_def split: option.splits)

lemma find_node_namespace:
  "find_node [k] (namespace q g) = Some l \<Longrightarrow> find_node (q @ [k]) g = Some l"
  by (cases "q = []") (auto simp: namespace_def find_node_snoc find_node_Nil split: option.splits)

lemma namespace_find_node:
  "find_node (q @ [k]) g = Some l \<Longrightarrow> find_node [k] (namespace q g) = Some l"
  by (cases "q = []") (auto simp: namespace_def find_node_snoc split: option.splits)


text \<open>
  C7. Aggregation under repetition. Let \<open>countHook\<close> be called \<open>N = length ts > 0\<close>
  times with the same stack, from a state whose window is well formed and whose forest has
  no duplicate sibling keys (every reachable state is such a state, and so is the initial
  one, with the empty forest).
  Then all calls return; the forest still has no duplicate sibling keys; at every level
  \<open>i\<close> of the path the node of the path exists and is the only node of its sibling list
  with its key; the count of the leaf has grown by \<open>N\<close> (in \<open>uint64_t\<close>) and the
  counts of the nodes above it are what they were before (0 for a node that did not
  exist). When the leaf's count was 0 and \<open>N < 2^64\<close>, it is exactly \<open>N\<close>.
\<close>

theorem same_path_repeated:
  assumes "window_ok (ipmsWindow s)" and "uniq_sources (gSourceHead s)" and "ts \<noteq> []"
  shows "\<exists>s'. countHooks L ar ts s = Some s' \<and> uniq_sources (gSourceHead s') \<and>
     (\<forall>i. 0 < i \<and> i \<le> length (stack_path L ar) \<longrightarrow>
        (\<exists>l. find_node (take i (stack_path L ar)) (gSourceHead s') = Some l \<and>
             matches (stack_path L ar ! (i - 1))
               (namespace (take (i - 1) (stack_path L ar)) (gSourceHead s')) = [l] \<and>
             count' l = count_at (take i (stack_path L ar)) (gSourceHead s) +
               (if i = length (stack_path L ar) then of_nat (length ts) else 0))) \<and>
     (count_at (stack_path L ar) (gSourceHead s) = 0 \<and> length ts < 2 ^ 64 \<longrightarrow>
        unat (count_at (stack_path L ar) (gSourceHead s')) = length ts)"
proof -
  let ?p = "stack_path L ar"
  have ne: "?p \<noteq> []" by (simp add: stack_path_def)
  from countHooks_forest [OF assms(1), of L ar ts] obtain s' where
    r: "countHooks L ar ts s = Some s'"
    and g': "gSourceHead s' = (recordSample ?p ^^ length ts) (gSourceHead s)"
    by blast
  from record_many [OF ne assms(2), of "length ts"] g' assms(3)
  have u: "uniq_sources (gSourceHead s')"
    and c: "\<And>i. 0 < i \<Longrightarrow> i \<le> length ?p \<Longrightarrow>
      \<exists>l. find_node (take i ?p) (gSourceHead s') = Some l \<and>
           count' l = count_at (take i ?p) (gSourceHead s) + (if i = length ?p then of_nat (length ts) else 0)"
    by auto
  have lvl: "\<exists>l. find_node (take i ?p) (gSourceHead s') = Some l \<and>
             matches (?p ! (i - 1)) (namespace (take (i - 1) ?p) (gSourceHead s')) = [l] \<and>
             count' l = count_at (take i ?p) (gSourceHead s) +
               (if i = length ?p then of_nat (length ts) else 0)"
    if i: "0 < i" "i \<le> length ?p" for i
  proof -
    from c [OF i] obtain l where l: "find_node (take i ?p) (gSourceHead s') = Some l"
      "count' l = count_at (take i ?p) (gSourceHead s) + (if i = length ?p then of_nat (length ts) else 0)"
      by blast
    from i have "take i ?p = take (i - 1) ?p @ [?p ! (i - 1)]"
      by (cases i) (simp_all add: take_Suc_conv_app_nth)
    with l(1) have "find_node [?p ! (i - 1)] (namespace (take (i - 1) ?p) (gSourceHead s')) = Some l"
      by (simp add: namespace_find_node)
    from matches_single [OF namespace_uniq [OF u] this] l show ?thesis by blast
  qed
  have ex: "unat (count_at ?p (gSourceHead s')) = length ts"
    if "count_at ?p (gSourceHead s) = 0" "length ts < 2 ^ 64"
  proof -
    from c [of "length ?p"] ne that(1) have "count_at ?p (gSourceHead s') = of_nat (length ts)"
      by (auto simp: count_at_def)
    with that(2) show ?thesis by (simp add: unat_of_nat)
  qed
  from r u lvl ex show ?thesis by blast
qed

theorem same_path_repeated_witness:
  "\<exists>s'. countHooks scenario_stack scenario_ar [(100, 100), (200, 200), (300, 300)] profiler_init = Some s' \<and>
     uniq_sources (gSourceHead s') \<and>
     (\<forall>i. 0 < i \<and> i \<le> length (stack_path scenario_stack scenario_ar) \<longrightarrow>
        (\<exists>l. find_node (take i (stack_path scenario_stack scenario_ar)) (gSourceHead s') = Some l \<and>
             matches (stack_path scenario_stack scenario_ar ! (i - 1))
               (namespace (take (i - 1) (stack_path scenario_stack scenario_ar)) (gSourceHead s')) = [l] \<and>
             count' l = count_at (take i (stack_path scenario_stack scenario_ar)) (gSourceHead profiler_init) +
               (if i = length (stack_path scenario_stack scenario_ar) then of_nat (length [(100, 100), (200, 200), (300 :: 64 word, 300 :: 64 word)]) else 0))) \<and>
     (count_at (stack_path scenario_stack scenario_ar) (gSourceHead profiler_init) = 0 \<and>
      length [(100, 100), (200, 200), (300 :: 64 word, 300 :: 64 word)] < 2 ^ 64 \<longrightarrow>
        unat (count_at (stack_path scenario_stack scenario_ar) (gSourceHead s')) =
          length [(100, 100), (200, 200), (300 :: 64 word, 300 :: 64 word)])"
  by (rule same_path_repeated) (simp_all add: profiler_init_def window_ok_init)

subsection \<open>Invariants of the reachable states\<close>

lemma countHook_invariants:
  assumes "window_ok (ipmsWindow s)" "uniq_sources (gSourceHead s)"
    and "countHook L ar cur t s = Some s'"
  shows "window_ok (ipmsWindow s') \<and> uniq_sources (gSourceHead s') \<and> 1 \<le> gLastCount s'"
proof -
  from countHook_result [OF assms(1), of cur L ar t] assms(3)
  have "window_ok (ipmsWindow s')" "1 \<le> gLastCount s'" by auto
  moreover have "stack_path L ar \<noteq> []" by (simp add: stack_path_def)
  from visit_once [OF this assms(2)] countHook_forest [OF assms(3)]
  have "uniq_sources (gSourceHead s')" by (simp add: recordSample_def)
  ultimately show ?thesis by simp
qed

lemma reachable_invariants:
  "reachable s \<Longrightarrow>
   window_ok (ipmsWindow s) \<and> uniq_sources (gSourceHead s) \<and> 1 \<le> gLastCount s"
proof (induction rule: reachable.induct)
  case reach_init
  show ?case by (simp add: profiler_init_def window_ok_init)
next
  case (reach_start s t)
  then show ?case by (simp add: countprof_start_def)
next
  case (reach_stop s)
  then show ?case by (simp add: countprof_stop_def)
next
  case (reach_dump s strings pid fopen_ok s')
  then show ?case by (auto simp: countprof_dump_def Let_def split: if_splits)
next
  case (reach_hook s L ar cur t s')
  show ?case
  proof (cases "ar_event ar = LUA_HOOKCOUNT")
    case True
    with reach_hook.hyps(2) have "countHook L ar cur t s = Some s'" by (simp add: hook_def)
    with reach_hook.IH show ?thesis using countHook_invariants by blast
  next
    case False
    with reach_hook.hyps(2) have "s' = s" by (cases "ar_event ar") (auto simp: hook_def)
    with reach_hook.IH show ?thesis by simp
  qed
qed

subsection \<open>The scenario, stop and dump\<close>

text \<open>
  In the scenario of C2 the file has two lines, not one: the line of the leaf, with count
  5, and the line of the root node \<open>mod.lua:10\<close>, with count 0.
\<close>

theorem scenario_two_lines_counterexample:
  "scenario_file =
     Some (''mod.lua:10;mod.lua:20 5'' @ [newline] @ ''mod.lua:10 0'' @ [newline]) \<and>
   ''mod.lua:10;mod.lua:20 5'' @ [newline] @ ''mod.lua:10 0'' @ [newline] \<noteq>
     ''mod.lua:10;mod.lua:20 5'' @ [newline]"
  by code_simp

lemma scenario_path: "stack_path scenario_stack scenario_ar = [(mod_lua, 10), (mod_lua, 20)]"
  by (simp add: stack_path_def scenario_stack_def scenario_ar_def frame_key_def)

lemma scenario_forest:
  "(recordSample [(mod_lua, 10), (mod_lua, 20)] ^^ 5) [] =
     [Source mod_lua [Line 10 0 [Source mod_lua [Line 20 5 []]]]]"
  by code_simp

lemma scenario_numbers: "show_int 10 = ''10''" "show_int 20 = ''20''" "dec (unat (5 :: 64 word)) = ''5''"
  "dec (unat (0 :: 64 word)) = ''0''" "dec 5 = ''5''" "dec 0 = ''0''"
  by code_simp+

text \<open>
  C2 (as amended). From any state with an empty forest and a well-formed window
  (whatever \<open>gLastCount\<close> and the time readings are), after five calls of \<open>countHook\<close>
  with the stack \<open>mod.lua:10\<close>, \<open>mod.lua:20\<close> (root to leaf), \<open>countprof_dump\<close> writes
  exactly two lines: \<open>mod.lua:10;mod.lua:20 5\<close> and then \<open>mod.lua:10 0\<close>.
\<close>

theorem scenario_two_lines:
  assumes "window_ok (ipmsWindow s)" and "gSourceHead s = []" and "length ts = 5"
    and "strings mod_lua = ''mod.lua''"
  shows "\<exists>s' s''. countHooks scenario_stack scenario_ar ts s = Some s' \<and>
           countprof_dump strings pid True s' = Some s'' \<and>
           files s'' (show_int pid @ ''.cp'') =
             Some (''mod.lua:10;mod.lua:20 5'' @ [newline] @ ''mod.lua:10 0'' @ [newline])"
proof -
  from countHooks_forest [OF assms(1), of scenario_stack scenario_ar ts] obtain s' where
    r: "countHooks scenario_stack scenario_ar ts s = Some s'"
    and g: "gSourceHead s' = [Source mod_lua [Line 10 0 [Source mod_lua [Line 20 5 []]]]]"
    using assms(2,3) by (auto simp: scenario_path scenario_forest)
  have "dumpSources strings (gSourceHead s') None =
      ''mod.lua:10;mod.lua:20 5'' @ [newline] @ ''mod.lua:10 0'' @ [newline]"
    by (simp add: g assms(4) scenario_numbers)
  with r show ?thesis by (simp add: countprof_dump_def)
qed

theorem scenario_two_lines_witness:
  "\<exists>s' s''. countHooks scenario_stack scenario_ar
               [(100, 150), (250, 300), (400, 450), (550, 600), (700, 750)]
               (countprof_start 0 (profiler_init \<lparr> gLastCount := 100 \<rparr>)) = Some s' \<and>
           countprof_dump scenario_strings 7 True s' = Some s'' \<and>
           files s'' (show_int 7 @ ''.cp'') =
             Some (''mod.lua:10;mod.lua:20 5'' @ [newline] @ ''mod.lua:10 0'' @ [newline])"
  by (rule scenario_two_lines)
     (simp_all add: countprof_start_def profiler_init_def window_ok_init scenario_strings_def)

text \<open>
  C9. Neither \<open>countprof_stop\<close> nor \<open>countprof_dump\<close> changes the forest, nor does
  \<open>countprof_start\<close>; so a \<open>countHook\<close> after stop, dump and a new start records its
  sample into the forest as it was before the stop.
\<close>

theorem stop_dump_keep_forest:
  "gSourceHead (countprof_stop s) = gSourceHead s \<and>
   (\<forall>s'. countprof_dump strings pid fopen_ok s = Some s' \<longrightarrow> gSourceHead s' = gSourceHead s) \<and>
   gSourceHead (countprof_start t s) = gSourceHead s \<and>
   (\<forall>s1 s2. countprof_dump strings pid fopen_ok (countprof_stop s) = Some s1 \<longrightarrow>
      countHook L ar cur t' (countprof_start t s1) = Some s2 \<longrightarrow>
      gSourceHead s2 = recordSample (stack_path L ar) (gSourceHead s))"
proof -
  have d: "gSourceHead s' = gSourceHead s0" if "countprof_dump strings pid fopen_ok s0 = Some s'" for s0 s'
    using that by (auto simp: countprof_dump_def Let_def split: if_splits)
  have a: "gSourceHead (countprof_stop s) = gSourceHead s"
    by (simp add: countprof_stop_def)
  have b: "gSourceHead (countprof_start t s0) = gSourceHead s0" for s0
    by (simp add: countprof_start_def)
  have c: "gSourceHead s2 = recordSample (stack_path L ar) (gSourceHead s)"
    if "countprof_dump strings pid fopen_ok (countprof_stop s) = Some s1"
      "countHook L ar cur t' (countprof_start t s1) = Some s2" for s1 s2
    using countHook_forest [OF that(2)] d [OF that(1)] a b by simp
  from a b c d show ?thesis by blast
qed

theorem stop_dump_keep_forest_witness:
  "gSourceHead (countprof_stop (profiler_init \<lparr> gSourceHead := [Source 1 [Line 10 2 []]] \<rparr>)) = [Source 1 [Line 10 2 []]] \<and>
   (\<exists>s1. countprof_dump scenario_strings 7 True
            (countprof_stop (profiler_init \<lparr> gSourceHead := [Source 1 [Line 10 2 []]] \<rparr>)) = Some s1 \<and>
      gSourceHead s1 = [Source 1 [Line 10 2 []]] \<and>
      (\<exists>s2. countHook [] \<lparr> ar_event = LUA_HOOKCOUNT, ar_source = 1, ar_linedefined = 10 \<rparr> 100 101
               (countprof_start 50 s1) = Some s2 \<and>
            gSourceHead s2 = [Source 1 [Line 10 3 []]]))"
proof -
  let ?s = "profiler_init \<lparr> gSourceHead := [Source 1 [Line 10 2 []]] \<rparr>"
  let ?ar = "\<lparr> ar_event = LUA_HOOKCOUNT, ar_source = 1, ar_linedefined = 10 \<rparr>"
  obtain s1 where s1: "countprof_dump scenario_strings 7 True (countprof_stop ?s) = Some s1"
    by (simp add: countprof_dump_def)
  have ok: "window_ok (ipmsWindow (countprof_start 50 s1))"
    using s1 by (auto simp: countprof_dump_def countprof_start_def countprof_stop_def profiler_init_def window_ok_init)
  from countHook_ok [OF ok, of "[]" ?ar 100 101] obtain s2 where
    s2: "countHook [] ?ar 100 101 (countprof_start 50 s1) = Some s2" by blast
  have r: "recordSample (stack_path [] ?ar) [Source 1 [Line 10 2 []]] = [Source 1 [Line 10 3 []]]"
    by code_simp
  note T = stop_dump_keep_forest [of ?s scenario_strings 7 True 50 "[]" ?ar 100 101]
    and T' = stop_dump_keep_forest [of "countprof_stop ?s" scenario_strings 7 True 50 "[]" ?ar 100 101]
  have a: "gSourceHead (countprof_stop ?s) = gSourceHead ?s" using T by blast
  have b: "gSourceHead s1 = gSourceHead (countprof_stop ?s)" using T' s1 by blast
  have c: "gSourceHead s2 = recordSample (stack_path [] ?ar) (gSourceHead ?s)" using T s1 s2 by blast
  have d: "gSourceHead ?s = [Source 1 [Line 10 2 []]]" by simp
  from a d have a': "gSourceHead (countprof_stop ?s) = [Source 1 [Line 10 2 []]]" by simp
  from a' b have b': "gSourceHead s1 = [Source 1 [Line 10 2 []]]" by simp
  from c r d have c': "gSourceHead s2 = [Source 1 [Line 10 3 []]]" by simp
  from s2 c' have "\<exists>s2. countHook [] ?ar 100 101 (countprof_start 50 s1) = Some s2 \<and>
            gSourceHead s2 = [Source 1 [Line 10 3 []]]" by blast
  with s1 b' have "\<exists>s1. countprof_dump scenario_strings 7 True (countprof_stop ?s) = Some s1 \<and>
      gSourceHead s1 = [Source 1 [Line 10 2 []]] \<and>
      (\<exists>s2. countHook [] ?ar 100 101 (countprof_start 50 s1) = Some s2 \<and>
            gSourceHead s2 = [Source 1 [Line 10 3 []]])" by blast
  with a' show ?thesis by blast
qed

subsection \<open>The report\<close>

lemma nodes_keys_nonempty:
  "(p, ks, l) \<in> set (nodes_s i ss) \<Longrightarrow> ks \<noteq> [] \<and> p \<noteq> []"
  "(p, ks, l) \<in> set (nodes_l i c j lns) \<Longrightarrow> ks \<noteq> [] \<and> p \<noteq> []"
  by (induction i ss and i c j lns arbitrary: p ks l and p ks l rule: nodes_s_nodes_l.induct)
     (auto, blast+)

lemma folded_Cons: "ks \<noteq> [] \<Longrightarrow> folded strings (k # ks) = token strings k @ '';'' @ folded strings ks"
  by (cases ks) auto

lemma dump_nodes:
  "dumpSources strings ss nxt =
     concat (map (\<lambda>(p, kl). stack_prefix strings nxt @ report_line strings kl) (nodes_s i ss))"
  "dumpLines strings c lns nxt =
     concat (map (\<lambda>(p, kl). stack_prefix strings nxt @ report_line strings kl) (nodes_l i c j lns))"
proof (induction strings ss nxt and strings c lns nxt arbitrary: i and i j rule: dumpSources_dumpLines.induct)
  case (1 strings nxt)
  show ?case by simp
next
  case (2 strings src lns ss nxt)
  show ?case by (simp add: "2.IH"(1) [of i 0] "2.IH"(2) [of "Suc i"])
next
  case (3 strings src nxt)
  show ?case by simp
next
  case (4 strings src n c ch lns nxt)
  let ?link = "Stack nxt src (Line n c ch)"
  have pre: "stack_prefix strings (Some ?link) = stack_prefix strings nxt @ token strings (src, n) @ '';''"
    by (simp add: stack_prefix_def token_def split: option.splits)
  have self: "dumpStack strings ?link @ '' '' @ dec (unat c) @ [newline] =
      stack_prefix strings nxt @ report_line strings ([(src, n)], Line n c ch)"
    by (simp add: stack_prefix_def report_line_def token_def split: option.splits)
  have kids: "(if ch \<noteq> [] then dumpSources strings ch (Some ?link) else []) =
      concat (map (\<lambda>(p, kl). stack_prefix strings nxt @ report_line strings kl)
        (map (\<lambda>(p, ks, l). ((i, j) # p, (src, n) # ks, l)) (nodes_s 0 ch)))"
  proof (cases "ch = []")
    case True
    then show ?thesis by simp
  next
    case False
    have "dumpSources strings ch (Some ?link) =
        concat (map (\<lambda>(p, kl). stack_prefix strings (Some ?link) @ report_line strings kl) (nodes_s 0 ch))"
      using "4.IH"(1) [OF refl False, of 0] .
    also have "\<dots> = concat (map (\<lambda>(p, kl). stack_prefix strings nxt @ report_line strings kl)
        (map (\<lambda>(p, ks, l). ((i, j) # p, (src, n) # ks, l)) (nodes_s 0 ch)))"
    proof -
      have "stack_prefix strings (Some ?link) @ report_line strings (ks, l) =
            stack_prefix strings nxt @ report_line strings ((src, n) # ks, l)"
        if "(p, ks, l) \<in> set (nodes_s 0 ch)" for p ks l
        using nodes_keys_nonempty(1) [OF that] by (simp add: pre report_line_def folded_Cons)
      then show ?thesis
        by (auto simp: comp_def split_def intro!: arg_cong [where f = concat])
    qed
    finally show ?thesis using False by simp
  qed
  show ?case
    using kids self "4.IH"(2) [of i "Suc j"] by (simp add: Let_def)
qed


lemma node_at_Cons_0:
  "node_at ((0, j) # p) (Source c lns # ss) = node_at ((0, j) # p) [Source c lns]"
  by simp

lemma node_at_Cons_Suc:
  "node_at ((Suc i, j) # p) (s # ss) = node_at ((i, j) # p) ss"
  by simp

lemma node_at_line_0:
  "node_at ((0, 0) # p) [Source c (Line n cnt ch # lns)] =
     (if p = [] then Some ([(c, n)], Line n cnt ch)
      else map_option (\<lambda>(ks, l). ((c, n) # ks, l)) (node_at p ch))"
  by (simp add: Let_def)

lemma node_at_line_Suc:
  "node_at ((0, Suc j) # p) [Source c (x # lns)] = node_at ((0, j) # p) [Source c lns]"
  by (simp add: Let_def)

lemma node_at_single_source:
  "node_at ((i, j) # p) [s] = Some kl \<Longrightarrow> i = 0"
  by (auto split: if_splits)

lemma nodes_iff:
  "(p, ks, l) \<in> set (nodes_s i ss) \<longleftrightarrow>
     (\<exists>i' j p'. p = (i + i', j) # p' \<and> node_at ((i', j) # p') ss = Some (ks, l))"
  "(p, ks, l) \<in> set (nodes_l i c j lns) \<longleftrightarrow>
     (\<exists>j' p'. p = (i, j + j') # p' \<and> node_at ((0, j') # p') [Source c lns] = Some (ks, l))"
proof (induction i ss and i c j lns arbitrary: p ks l and p ks l rule: nodes_s_nodes_l.induct)
  case (1 i)
  show ?case by simp
next
  case (2 i c lns ss)
  have "(\<exists>i' j p'. p = (i + i', j) # p' \<and> node_at ((i', j) # p') (Source c lns # ss) = Some (ks, l)) \<longleftrightarrow>
        (\<exists>j p'. p = (i, j) # p' \<and> node_at ((0, j) # p') [Source c lns] = Some (ks, l)) \<or>
        (\<exists>i' j p'. p = (Suc i + i', j) # p' \<and> node_at ((i', j) # p') ss = Some (ks, l))"
    (is "?A \<longleftrightarrow> ?B \<or> ?C")
  proof
    assume ?A
    then obtain i' j p' where a: "p = (i + i', j) # p'"
      "node_at ((i', j) # p') (Source c lns # ss) = Some (ks, l)" by blast
    show "?B \<or> ?C"
    proof (cases i')
      case 0
      with a have ?B using node_at_Cons_0 [of j p' c lns ss] by auto
      then show ?thesis ..
    next
      case (Suc i'')
      with a have ?C using node_at_Cons_Suc [of i'' j p' "Source c lns" ss] by auto
      then show ?thesis ..
    qed
  next
    assume "?B \<or> ?C"
    then show ?A
    proof
      assume ?B
      then obtain j p' where "p = (i, j) # p'" "node_at ((0, j) # p') [Source c lns] = Some (ks, l)"
        by blast
      then have "p = (i + 0, j) # p' \<and> node_at ((0, j) # p') (Source c lns # ss) = Some (ks, l)"
        using node_at_Cons_0 [of j p' c lns ss] by simp
      then show ?A by blast
    next
      assume ?C
      then obtain i' j p' where "p = (Suc i + i', j) # p'" "node_at ((i', j) # p') ss = Some (ks, l)"
        by blast
      then have "p = (i + Suc i', j) # p' \<and> node_at ((Suc i', j) # p') (Source c lns # ss) = Some (ks, l)"
        using node_at_Cons_Suc [of i' j p' "Source c lns" ss] by simp
      then show ?A by blast
    qed
  qed
  then show ?case using "2.IH"(1) [of p ks l] "2.IH"(2) [of p ks l] by simp
next
  case (3 i c j)
  show ?case by simp
next
  case (4 i c j n cnt ch lns)
  have kids: "(p, ks, l) \<in> set (map (\<lambda>(p, ks, l). ((i, j) # p, (c, n) # ks, l)) (nodes_s 0 ch)) \<longleftrightarrow>
      (\<exists>q ks'. q \<noteq> [] \<and> p = (i, j) # q \<and> ks = (c, n) # ks' \<and> node_at q ch = Some (ks', l))"
    (is "?K \<longleftrightarrow> ?K'")
  proof
    assume ?K
    then obtain q ks' where m: "(q, ks', l) \<in> set (nodes_s 0 ch)" "p = (i, j) # q" "ks = (c, n) # ks'"
      by auto
    from m(1) "4.IH"(1) [of q ks' l] have "node_at q ch = Some (ks', l)" "q \<noteq> []" by auto
    with m show ?K' by blast
  next
    assume ?K'
    then obtain q ks' where m: "q \<noteq> []" "p = (i, j) # q" "ks = (c, n) # ks'"
      "node_at q ch = Some (ks', l)" by blast
    from m(1) obtain i' j' q' where "q = (i', j') # q'" by (cases q) auto
    with m(4) "4.IH"(1) [of q ks' l] have "(q, ks', l) \<in> set (nodes_s 0 ch)" by auto
    with m show ?K by force
  qed
  have "(\<exists>j' p'. p = (i, j + j') # p' \<and>
          node_at ((0, j') # p') [Source c (Line n cnt ch # lns)] = Some (ks, l)) \<longleftrightarrow>
        ?K' \<or> (p = [(i, j)] \<and> ks = [(c, n)] \<and> l = Line n cnt ch) \<or>
        (\<exists>j' p'. p = (i, Suc j + j') # p' \<and> node_at ((0, j') # p') [Source c lns] = Some (ks, l))"
    (is "?A \<longleftrightarrow> ?K' \<or> ?S \<or> ?C")
  proof
    assume ?A
    then obtain j' p' where a: "p = (i, j + j') # p'"
      "node_at ((0, j') # p') [Source c (Line n cnt ch # lns)] = Some (ks, l)" by blast
    show "?K' \<or> ?S \<or> ?C"
    proof (cases j')
      case 0
      show ?thesis
      proof (cases "p' = []")
        case True
        with a 0 have ?S by simp
        then show ?thesis by blast
      next
        case False
        with a 0 have ?K' using node_at_line_0 [of p' c n cnt ch lns] by auto
        then show ?thesis by blast
      qed
    next
      case (Suc j'')
      with a have ?C using node_at_line_Suc [of j'' p' c "Line n cnt ch" lns] by auto
      then show ?thesis by blast
    qed
  next
    assume "?K' \<or> ?S \<or> ?C"
    then consider ?K' | ?S | ?C by blast
    then show ?A
    proof cases
      case 1
      then obtain q ks' where m: "q \<noteq> []" "p = (i, j) # q" "ks = (c, n) # ks'"
        "node_at q ch = Some (ks', l)" by blast
      then have "p = (i, j + 0) # q \<and>
          node_at ((0, 0) # q) [Source c (Line n cnt ch # lns)] = Some (ks, l)"
        using node_at_line_0 [of q c n cnt ch lns] by simp
      then show ?thesis by blast
    next
      case 2
      then have "p = (i, j + 0) # [] \<and>
          node_at ((0, 0) # []) [Source c (Line n cnt ch # lns)] = Some (ks, l)"
        by simp
      then show ?thesis by blast
    next
      case 3
      then obtain j' p' where "p = (i, Suc j + j') # p'"
        "node_at ((0, j') # p') [Source c lns] = Some (ks, l)" by blast
      then have "p = (i, j + Suc j') # p' \<and>
          node_at ((0, Suc j') # p') [Source c (Line n cnt ch # lns)] = Some (ks, l)"
        using node_at_line_Suc [of j' p' c "Line n cnt ch" lns] by simp
      then show ?thesis by blast
    qed
  qed
  then show ?case
    using kids "4.IH"(2) [of p ks l] by (simp del: node_at.simps) blast
qed

lemma nodes_0_iff: "(p, kl) \<in> set (nodes_s 0 g) \<longleftrightarrow> node_at p g = Some kl"
proof (cases p)
  case Nil
  then show ?thesis using nodes_iff(1) [of p "fst kl" "snd kl" 0 g] by simp
next
  case (Cons ij p')
  then show ?thesis using nodes_iff(1) [of p "fst kl" "snd kl" 0 g] by (cases ij) auto
qed


lemma nodes_heads:
  "(p, ks, l) \<in> set (nodes_s i ss) \<Longrightarrow> \<exists>i' j p'. p = (i', j) # p' \<and> i \<le> i'"
  "(p, ks, l) \<in> set (nodes_l i c j lns) \<Longrightarrow> \<exists>j' p'. p = (i, j') # p' \<and> j \<le> j'"
  using nodes_iff(1) [of p ks l i ss] nodes_iff(2) [of p ks l i c j lns]
  by (auto simp del: node_at.simps)

lemma nodes_distinct:
  "distinct (map fst (nodes_s i ss))"
  "distinct (map fst (nodes_l i c j lns))"
proof (induction i ss and i c j lns rule: nodes_s_nodes_l.induct)
  case (1 i)
  show ?case by simp
next
  case (2 i c lns ss)
  have "fst ` set (nodes_l i c 0 lns) \<inter> fst ` set (nodes_s (Suc i) ss) = {}"
  proof -
    have False if a: "(p, ks, l) \<in> set (nodes_l i c 0 lns)" and b: "(p, ks', l') \<in> set (nodes_s (Suc i) ss)"
      for p ks l ks' l'
      using nodes_heads(2) [OF a] nodes_heads(1) [OF b] by auto
    then show ?thesis by fastforce
  qed
  with 2 show ?case by simp
next
  case (3 i c j)
  show ?case by simp
next
  case (4 i c j n cnt ch lns)
  let ?kids = "map (\<lambda>(p, ks, l). ((i, j) # p, (c, n) # ks, l)) (nodes_s 0 ch)"
  have mk: "map fst ?kids = map ((#) (i, j)) (map fst (nodes_s 0 ch))"
    by (simp add: comp_def split_def)
  have "distinct (map ((#) (i, j)) (map fst (nodes_s 0 ch)))"
    using "4.IH"(1) by (subst distinct_map) simp
  then have dk: "distinct (map fst ?kids)"
    unfolding mk .
  have self: "[(i, j)] \<notin> set (map fst ?kids)"
  proof
    assume "[(i, j)] \<in> set (map fst ?kids)"
    then obtain q ks l where "(q, ks, l) \<in> set (nodes_s 0 ch)" "[(i, j)] = (i, j) # q"
      by auto
    with nodes_keys_nonempty(1) [of q ks l 0 ch] show False by simp
  qed
  have rest: "p \<notin> set (map fst (nodes_l i c (Suc j) lns))"
    if "p \<in> set (map fst ?kids) \<or> p = [(i, j)]" for p
  proof
    assume "p \<in> set (map fst (nodes_l i c (Suc j) lns))"
    then obtain ks l where "(p, ks, l) \<in> set (nodes_l i c (Suc j) lns)" by auto
    from nodes_heads(2) [OF this] obtain j' p' where "p = (i, j') # p'" "Suc j \<le> j'" by blast
    moreover from that obtain q where "p = (i, j) # q" by auto
    ultimately show False by simp
  qed
  show ?case
    using dk self rest "4.IH"(2)
    by (simp del: map_map) blast
qed

text \<open>
  C3. Report completeness. What \<open>dumpSources\<close> writes for a forest is the concatenation
  of the lines of a list of nodes in which every position occurs at most once and whose
  members are exactly the nodes of the forest: one line for every node, with or without
  children and whatever its count, made of the \<open>;\<close>-joined \<open>source:line\<close> tokens from
  the root to the node, one space, the node's count in decimal, and a newline.
\<close>

theorem report_complete:
  "\<exists>pns. distinct (map fst pns) \<and> set pns = {(p, kl). node_at p g = Some kl} \<and>
     dumpSources strings g None = concat (map (\<lambda>(p, kl). report_line strings kl) pns)"
proof -
  have "set (nodes_s 0 g) = {(p, kl). node_at p g = Some kl}"
    using nodes_0_iff [of _ _ g] by auto
  moreover have "dumpSources strings g None =
      concat (map (\<lambda>(p, kl). report_line strings kl) (nodes_s 0 g))"
    using dump_nodes(1) [of strings g None 0] by (simp add: stack_prefix_def)
  ultimately show ?thesis
    using nodes_distinct(1) [of 0 g] by blast
qed

text \<open>
  The example of the specification: a node sampled once that has three children gives four
  lines, one for each child and one for itself.
\<close>

lemma report_example:
  "dumpSources scenario_strings
     [Source mod_lua [Line 10 1 [Source mod_lua [Line 20 2 [], Line 30 0 [], Line 40 7 []]]]] None =
   ''mod.lua:10;mod.lua:20 2'' @ [newline] @ ''mod.lua:10;mod.lua:30 0'' @ [newline] @
   ''mod.lua:10;mod.lua:40 7'' @ [newline] @ ''mod.lua:10 1'' @ [newline]"
  by code_simp

end
